theory Spec2Isabelle
  imports Main "HOL-Library.Sublist"
begin

section \<open>Go strings and the library functions the ventilator calls\<close>

text \<open>
  A Go string is a sequence of bytes, so it is a \<open>string\<close> here (a list of 8-bit
  \<open>char\<close>s); \<open>len\<close> is \<open>length\<close> and \<open>s[a:b]\<close> is \<open>slice s a b\<close>. The functions of
  packages \<open>strings\<close> and \<open>unicode\<close> are modelled on bytes, exactly as the library behaves
  on any byte sequence (valid UTF-8 or not); where the library decodes runes, the model
  recognises the UTF-8 encodings of the white-space code points.
\<close>

abbreviation NL :: char where "NL \<equiv> CHR 0x0A"
abbreviation CR :: char where "CR \<equiv> CHR 0x0D"
abbreviation DQUOTE :: char where "DQUOTE \<equiv> CHR 0x22"
abbreviation SQUOTE :: char where "SQUOTE \<equiv> CHR 0x27"
abbreviation BACKTICK :: char where "BACKTICK \<equiv> CHR 0x60"

definition slice :: "string \<Rightarrow> nat \<Rightarrow> nat \<Rightarrow> string" where
  "slice s a b = take (b - a) (drop a s)"

definition HasPrefix :: "string \<Rightarrow> string \<Rightarrow> bool" where
  "HasPrefix s pre = prefix pre s"

definition HasSuffix :: "string \<Rightarrow> string \<Rightarrow> bool" where
  "HasSuffix s suf = suffix suf s"

definition TrimSuffix :: "string \<Rightarrow> string \<Rightarrow> string" where
  "TrimSuffix s suf = (if HasSuffix s suf then take (length s - length suf) s else s)"

text \<open>\<open>strings.Join\<close>.\<close>

fun Join :: "string list \<Rightarrow> string \<Rightarrow> string" where
  "Join [] sep = []"
| "Join [x] sep = x"
| "Join (x # y # zs) sep = x @ sep @ Join (y # zs) sep"

text \<open>\<open>strings.Split(s, sep)\<close> for a one-byte separator: the pieces between the
  separators, so one piece more than there are separators (the empty string gives one
  empty piece).\<close>

fun Split :: "string \<Rightarrow> char \<Rightarrow> string list" where
  "Split [] sep = [[]]"
| "Split (c # cs) sep =
     (if c = sep then [] # Split cs sep
      else (case Split cs sep of [] \<Rightarrow> [[c]] | l # ls \<Rightarrow> (c # l) # ls))"

text \<open>\<open>strings.ReplaceAll(s, "\r\n", "\n")\<close>: left to right, without overlap.\<close>

fun ReplaceAll_CRLF :: "string \<Rightarrow> string" where
  "ReplaceAll_CRLF (c # d # rest) =
     (if c = CR \<and> d = NL then NL # ReplaceAll_CRLF rest else c # ReplaceAll_CRLF (d # rest))"
| "ReplaceAll_CRLF s = s"

text \<open>\<open>strings.Index(s, sub)\<close>: the first position where \<open>sub\<close> starts, \<open>None\<close> for Go's
  \<open>-1\<close>. The recursion carries the position.\<close>

fun Index_from :: "nat \<Rightarrow> string \<Rightarrow> string \<Rightarrow> nat option" where
  "Index_from k [] sub = (if sub = [] then Some k else None)"
| "Index_from k (c # cs) sub =
     (if HasPrefix (c # cs) sub then Some k else Index_from (Suc k) cs sub)"

definition Index :: "string \<Rightarrow> string \<Rightarrow> nat option" where
  "Index s sub = Index_from 0 s sub"

text \<open>\<open>strings.LastIndexAny(s, chars)\<close> for ASCII \<open>chars\<close>: the scan from the back,
  \<open>for i := len(s) - 1; i >= 0; i--\<close>; the second argument of the loop is the number of
  positions not yet looked at.\<close>

fun LastIndexAny_loop :: "string \<Rightarrow> string \<Rightarrow> nat \<Rightarrow> nat option" where
  "LastIndexAny_loop s chars 0 = None"
| "LastIndexAny_loop s chars (Suc n) =
     (if s ! n \<in> set chars then Some n else LastIndexAny_loop s chars n)"

definition LastIndexAny :: "string \<Rightarrow> string \<Rightarrow> nat option" where
  "LastIndexAny s chars = LastIndexAny_loop s chars (length s)"

text \<open>\<open>unicode.IsSpace(rune(b))\<close>, \<open>unicode.IsUpper(rune(b))\<close> and
  \<open>unicode.IsLower(rune(b))\<close> for a byte \<open>b\<close>: the scanner converts single bytes to runes,
  so only the Latin-1 rows of the Unicode tables are read.\<close>

definition IsSpace :: "char \<Rightarrow> bool" where
  "IsSpace c = (let n = (of_char c :: nat) in
     (9 \<le> n \<and> n \<le> 13) \<or> n = 32 \<or> n = 0x85 \<or> n = 0xA0)"

definition IsUpper :: "char \<Rightarrow> bool" where
  "IsUpper c = (let n = (of_char c :: nat) in
     (0x41 \<le> n \<and> n \<le> 0x5A) \<or> (0xC0 \<le> n \<and> n \<le> 0xD6) \<or> (0xD8 \<le> n \<and> n \<le> 0xDE))"

definition IsLower :: "char \<Rightarrow> bool" where
  "IsLower c = (let n = (of_char c :: nat) in
     (0x61 \<le> n \<and> n \<le> 0x7A) \<or> n = 0xB5 \<or> (0xDF \<le> n \<and> n \<le> 0xF6) \<or> (0xF8 \<le> n \<and> n \<le> 0xFF))"

text \<open>
  \<open>strings.TrimSpace\<close> and \<open>strings.Fields\<close> decode UTF-8 and ask \<open>unicode.IsSpace\<close>
  of each rune. \<open>spaceWidth s\<close> is the number of bytes of the white-space rune \<open>s\<close> starts
  with, and 0 when \<open>s\<close> starts with no white-space rune: the ASCII ones (tab to carriage
  return, space), U+0085 and U+00A0 (C2 85, C2 A0), U+1680 (E1 9A 80), U+2000 to U+200A,
  U+2028, U+2029, U+202F (E2 80 xx), U+205F (E2 81 9F) and U+3000 (E3 80 80). An encoding
  starts with an ASCII byte or a lead byte and goes on with continuation bytes, so the
  decoder stops at every position where one starts, and a byte-by-byte scan finds the
  same white space as the decoder.
\<close>

definition spaceRune3 :: "nat \<Rightarrow> nat \<Rightarrow> nat \<Rightarrow> bool" where
  "spaceRune3 a b c =
     ((a = 0xE1 \<and> b = 0x9A \<and> c = 0x80) \<or>
      (a = 0xE2 \<and> b = 0x80 \<and> ((0x80 \<le> c \<and> c \<le> 0x8A) \<or> c = 0xA8 \<or> c = 0xA9 \<or> c = 0xAF)) \<or>
      (a = 0xE2 \<and> b = 0x81 \<and> c = 0x9F) \<or>
      (a = 0xE3 \<and> b = 0x80 \<and> c = 0x80))"

definition spaceRune2 :: "nat \<Rightarrow> nat \<Rightarrow> bool" where
  "spaceRune2 a b = (a = 0xC2 \<and> (b = 0x85 \<or> b = 0xA0))"

definition spaceRune1 :: "nat \<Rightarrow> bool" where
  "spaceRune1 a = ((9 \<le> a \<and> a \<le> 13) \<or> a = 32)"

fun spaceWidth :: "string \<Rightarrow> nat" where
  "spaceWidth [] = 0"
| "spaceWidth [a] = (if spaceRune1 (of_char a) then 1 else 0)"
| "spaceWidth [a, b] =
     (if spaceRune1 (of_char a) then 1 else if spaceRune2 (of_char a) (of_char b) then 2 else 0)"
| "spaceWidth (a # b # c # rest) =
     (if spaceRune1 (of_char a) then 1
      else if spaceRune2 (of_char a) (of_char b) then 2
      else if spaceRune3 (of_char a) (of_char b) (of_char c) then 3 else 0)"

text \<open>The white-space rune a string ends with (\<open>utf8.DecodeLastRuneInString\<close> followed
  by \<open>unicode.IsSpace\<close>): its width, 0 when there is none.\<close>

definition lastSpaceWidth :: "string \<Rightarrow> nat" where
  "lastSpaceWidth s =
     (let n = length s in
      if 1 \<le> n \<and> spaceWidth (drop (n - 1) s) = 1 then 1
      else if 2 \<le> n \<and> spaceWidth (drop (n - 2) s) = 2 then 2
      else if 3 \<le> n \<and> spaceWidth (drop (n - 3) s) = 3 then 3
      else 0)"

lemma spaceWidth_le: "spaceWidth s \<le> length s"
  by (induction s rule: spaceWidth.induct) auto

lemma lastSpaceWidth_le: "lastSpaceWidth s \<le> length s"
  by (auto simp: lastSpaceWidth_def Let_def)

function TrimLeft :: "string \<Rightarrow> string" where
  "TrimLeft s = (if spaceWidth s = 0 then s else TrimLeft (drop (spaceWidth s) s))"
  by pat_completeness auto
termination
proof (relation "measure length")
  show "wf (measure length)" by simp
next
  fix s :: string
  assume "spaceWidth s \<noteq> 0"
  moreover have "spaceWidth s \<le> length s" by (rule spaceWidth_le)
  ultimately show "(drop (spaceWidth s) s, s) \<in> measure length" by simp
qed

declare TrimLeft.simps [simp del]

function TrimRight :: "string \<Rightarrow> string" where
  "TrimRight s =
     (if lastSpaceWidth s = 0 then s else TrimRight (take (length s - lastSpaceWidth s) s))"
  by pat_completeness auto
termination
proof (relation "measure length")
  show "wf (measure length)" by simp
next
  fix s :: string
  assume "lastSpaceWidth s \<noteq> 0"
  moreover have "lastSpaceWidth s \<le> length s" by (rule lastSpaceWidth_le)
  ultimately show "(take (length s - lastSpaceWidth s) s, s) \<in> measure length" by simp
qed

declare TrimRight.simps [simp del]

definition TrimSpace :: "string \<Rightarrow> string" where
  "TrimSpace s = TrimRight (TrimLeft s)"

text \<open>\<open>strings.Fields\<close>: the maximal runs of bytes between white-space runes. The first
  argument is the field being read (empty when none is open, Go's \<open>start < 0\<close>).\<close>

function Fields_from :: "string \<Rightarrow> string \<Rightarrow> string list" where
  "Fields_from cur s =
     (case s of
        [] \<Rightarrow> (if cur = [] then [] else [cur])
      | c # cs \<Rightarrow>
          (if spaceWidth s = 0 then Fields_from (cur @ [c]) cs
           else if cur = [] then Fields_from [] (drop (spaceWidth s) s)
           else cur # Fields_from [] (drop (spaceWidth s) s)))"
  by pat_completeness auto
termination
proof (relation "measure (\<lambda>(cur, s). length s)")
  show "wf (measure (\<lambda>(cur, s). length s))" by simp
next
  fix cur s :: string and c cs
  assume "s = c # cs"
  then show "((cur @ [c], cs), (cur, s)) \<in> measure (\<lambda>(cur, s). length s)" by simp
next
  fix cur s :: string and c cs
  assume "s = c # cs" "spaceWidth s \<noteq> 0"
  then show "(([], drop (spaceWidth s) s), (cur, s)) \<in> measure (\<lambda>(cur, s). length s)"
    by simp
next
  fix cur s :: string and c cs
  assume "s = c # cs" "spaceWidth s \<noteq> 0"
  then show "(([], drop (spaceWidth s) s), (cur, s)) \<in> measure (\<lambda>(cur, s). length s)"
    by simp
qed

declare Fields_from.simps [simp del]

definition Fields :: "string \<Rightarrow> string list" where
  "Fields s = Fields_from [] s"

section \<open>Configuration and errors\<close>

text \<open>
  \<open>Config\<close> as the library declares it. \<open>Abbreviations\<close> is a Go \<open>map[string]bool\<close>:
  \<open>None\<close> is the nil map, and a lookup of a missing key gives \<open>False\<close>.
  \<open>MaxLineLength\<close> is a Go \<open>int\<close>; it is only compared with sums of lengths of pieces of
  one string, which stay far below the machine range, so it is an \<open>int\<close> here.
\<close>

record Config =
  SentenceBreak :: bool
  MaxLineLength :: int
  ParagraphSpacing :: string
  RespectMaxLineLength :: bool
  Abbreviations :: "(string \<Rightarrow> bool) option"

text \<open>\<open>UnterminatedMarkupSpan\<close> is \<open>errUnterminatedMarkup\<close>, the only error value of the
  library. \<open>Panic\<close> stands for a Go run-time panic (a slice or an index out of range);
  the library never recovers from one.\<close>

datatype error = UnterminatedMarkupSpan | Panic

definition defaultAbbreviations :: "string \<Rightarrow> bool" where
  "defaultAbbreviations w =
     (w \<in> set [''Mr.'', ''Mrs.'', ''Ms.'', ''Dr.'', ''Prof.'', ''e.g.'', ''i.e.'', ''etc.'', ''St.''])"

section \<open>Span scanner\<close>

text \<open>\<open>checkUnterminatedMarkup\<close>: the loop ranges over the runes of \<open>s\<close>; a byte below
  0x80 is always a rune of its own, so the braces it sees are exactly the brace bytes.\<close>

fun checkUnterminatedMarkup_loop :: "int \<Rightarrow> string \<Rightarrow> error option" where
  "checkUnterminatedMarkup_loop level [] =
     (if level \<noteq> 0 then Some UnterminatedMarkupSpan else None)"
| "checkUnterminatedMarkup_loop level (r # rs) =
     (if r = CHR ''{'' then checkUnterminatedMarkup_loop (level + 1) rs
      else if r = CHR ''}'' then
        (if level > 0 then checkUnterminatedMarkup_loop (level - 1) rs
         else Some UnterminatedMarkupSpan)
      else checkUnterminatedMarkup_loop level rs)"

definition checkUnterminatedMarkup :: "string \<Rightarrow> error option" where
  "checkUnterminatedMarkup s = checkUnterminatedMarkup_loop 0 s"

text \<open>\<open>findMarkupEnd(s, start)\<close>: the loop runs over \<open>s[start+1:]\<close>; its arguments are
  the bytes still to read, the level and the index of the first of them. \<open>None\<close> is Go's
  \<open>(-1, false)\<close>.\<close>

fun findMarkupEnd_loop :: "string \<Rightarrow> int \<Rightarrow> nat \<Rightarrow> nat option" where
  "findMarkupEnd_loop [] level i = None"
| "findMarkupEnd_loop (c # cs) level i =
     (if c = CHR ''{'' then findMarkupEnd_loop cs (level + 1) (Suc i)
      else if c = CHR ''}'' then
        (if level - 1 = 0 then Some i else findMarkupEnd_loop cs (level - 1) (Suc i))
      else findMarkupEnd_loop cs level (Suc i))"

definition findMarkupEnd :: "string \<Rightarrow> nat \<Rightarrow> nat option" where
  "findMarkupEnd s start = findMarkupEnd_loop (drop (Suc start) s) 1 (Suc start)"

section \<open>Sentence boundary scanner\<close>

text \<open>The two inner loops of \<open>ventilateBySentence\<close>:
  \<open>for j < len(p) && unicode.IsSpace(rune(p[j])) { j++ }\<close> and the loop that steps over
  the closing wrappers \<open>*}_)]}"'\<close>.\<close>

definition skipSpace :: "string \<Rightarrow> nat \<Rightarrow> nat" where
  "skipSpace p j = j + length (takeWhile IsSpace (drop j p))"

definition isWrapper :: "char \<Rightarrow> bool" where
  "isWrapper c = (c \<in> set [CHR ''*'', CHR ''}'', CHR ''_'', CHR '')'', CHR '']'', CHR ''}'', DQUOTE, SQUOTE])"

definition skipWrappers :: "string \<Rightarrow> nat \<Rightarrow> nat" where
  "skipWrappers p j = j + length (takeWhile isWrapper (drop j p))"

text \<open>
  One pass through the body of the main loop of \<open>ventilateBySentence\<close>, at cursor
  \<open>i < len(p)\<close>. Every path through the body ends in one of three ways:
  \<^item> \<open>Advance i'\<close>: the cursor moves to \<open>i'\<close> and nothing is written (\<open>i++\<close> or
    \<open>i += 3\<close>, then \<open>continue\<close>);
  \<^item> \<open>Boundary b r\<close>: \<open>p[lastBreak:b]\<close> and a newline are written, and \<open>lastBreak\<close> and
    the cursor are both set to \<open>r\<close>;
  \<^item> \<open>Abort e\<close>: the function returns \<open>"", e\<close> (or panics on the slice).
\<close>

datatype action = Advance nat | Boundary nat nat | Abort error

definition wordBefore :: "string \<Rightarrow> nat \<Rightarrow> string" where
  "wordBefore p i =
     (let wordStart = (case LastIndexAny (take i p) [CHR '' '', NL] of None \<Rightarrow> 0 | Some k \<Rightarrow> k + 1)
      in slice p wordStart (i + 1))"

definition quoteGuard :: "string \<Rightarrow> nat \<Rightarrow> bool" where
  "quoteGuard p i =
     ((p ! i = CHR ''!'' \<or> p ! i = CHR ''?'') \<and> i + 1 < length p \<and> p ! (i + 1) = DQUOTE \<and>
      (let j = skipSpace p (i + 2) in j < length p \<and> IsLower (p ! j)))"

definition scanStep :: "string \<Rightarrow> (string \<Rightarrow> bool) \<Rightarrow> nat \<Rightarrow> nat \<Rightarrow> action" where
  "scanStep p abbreviations lastBreak i =
     (if HasPrefix (drop i p) ''...'' then Advance (i + 3)
      else if p ! i = CHR ''{'' then
        (case findMarkupEnd p i of
           None \<Rightarrow> Abort UnterminatedMarkupSpan
         | Some e \<Rightarrow>
             (let j = skipSpace p (e + 1) in
              if j \<ge> length p \<or> IsUpper (p ! j) then
                (if lastBreak \<le> e + 1 \<and> e + 1 \<le> length p then Boundary (e + 1) j
                 else Abort Panic)
              else Advance (e + 1)))
      else if p ! i = CHR ''.'' \<or> p ! i = CHR ''!'' \<or> p ! i = CHR ''?'' then
        (if abbreviations (wordBefore p i) then Advance (i + 1)
         else if quoteGuard p i then Advance (i + 1)
         else
           (let j = skipWrappers p (i + 1) in
            if j \<ge> length p \<or> IsSpace (p ! j) then
              (if lastBreak \<le> j \<and> j \<le> length p then Boundary j (skipSpace p j)
               else Abort Panic)
            else Advance (i + 1)))
      else Advance (i + 1))"

text \<open>The cursor moves forward in every pass, and stays within the paragraph.\<close>

lemma skipSpace_ge: "j \<le> skipSpace p j"
  by (simp add: skipSpace_def)

lemma skipSpace_le: "j \<le> length p \<Longrightarrow> skipSpace p j \<le> length p"
proof -
  assume "j \<le> length p"
  moreover have "length (takeWhile IsSpace (drop j p)) \<le> length (drop j p)"
    by (rule length_takeWhile_le)
  ultimately show ?thesis by (simp add: skipSpace_def)
qed

lemma skipWrappers_ge: "j \<le> skipWrappers p j"
  by (simp add: skipWrappers_def)


lemma findMarkupEnd_loop_bounds:
  "findMarkupEnd_loop cs level i = Some e \<Longrightarrow> i \<le> e \<and> e < i + length cs"
proof (induction cs arbitrary: level i)
  case Nil
  then show ?case by simp
next
  case (Cons c cs)
  then show ?case by (fastforce split: if_splits)
qed

lemma findMarkupEnd_bounds:
  assumes "findMarkupEnd p i = Some e"
  shows "i < e \<and> e < length p"
proof -
  from assms have "Suc i \<le> e \<and> e < Suc i + length (drop (Suc i) p)"
    unfolding findMarkupEnd_def by (rule findMarkupEnd_loop_bounds)
  moreover have "drop (Suc i) p \<noteq> []"
    using assms unfolding findMarkupEnd_def by (cases "drop (Suc i) p") auto
  ultimately show ?thesis by auto
qed

lemma HasPrefix_drop_length:
  assumes "HasPrefix (drop i p) pre" and "pre \<noteq> []"
  shows "i + length pre \<le> length p"
proof -
  from assms(1) have "length pre \<le> length (drop i p)"
    unfolding HasPrefix_def by (rule prefix_length_le)
  then have "length pre \<le> length p - i" by simp
  moreover from assms(2) have "1 \<le> length pre" by (cases pre) auto
  ultimately show ?thesis by arith
qed

lemma scanStep_Advance:
  assumes "scanStep p abbr lb i = Advance i'" and "i < length p"
  shows "i < i' \<and> i' \<le> length p"
proof (cases "HasPrefix (drop i p) ''...''")
  case True
  then have "i + 3 \<le> length p" using HasPrefix_drop_length[of i p "''...''"] by simp
  with True assms show ?thesis by (simp add: scanStep_def)
next
  case False
  with assms show ?thesis
    by (auto simp: scanStep_def Let_def split: if_splits option.splits
             dest!: findMarkupEnd_bounds)
qed

lemma scanStep_Boundary:
  assumes "scanStep p abbr lb i = Boundary b r" and "i < length p"
  shows "i < b \<and> b \<le> length p \<and> lb \<le> b \<and> r = skipSpace p b"
proof -
  have w: "i + 1 \<le> skipWrappers p (i + 1)" by (rule skipWrappers_ge)
  from assms show ?thesis using w
    by (auto simp: scanStep_def Let_def split: if_splits option.splits
             dest!: findMarkupEnd_bounds)
qed

text \<open>The main loop of \<open>ventilateBySentence\<close>, with the builder \<open>result\<close>, \<open>lastBreak\<close>
  and the cursor \<open>i\<close> as its state. It returns the builder and \<open>lastBreak\<close> when the
  cursor reaches the end.\<close>

function scanLoop ::
  "string \<Rightarrow> (string \<Rightarrow> bool) \<Rightarrow> string \<Rightarrow> nat \<Rightarrow> nat \<Rightarrow> error + (string \<times> nat)" where
  "scanLoop p abbreviations result lastBreak i =
     (if i < length p then
        (case scanStep p abbreviations lastBreak i of
           Advance i' \<Rightarrow> scanLoop p abbreviations result lastBreak i'
         | Boundary b r \<Rightarrow> scanLoop p abbreviations (result @ slice p lastBreak b @ [NL]) r r
         | Abort e \<Rightarrow> Inl e)
      else Inr (result, lastBreak))"
  by pat_completeness auto
termination
proof (relation "measure (\<lambda>(p, abbreviations, result, lastBreak, i). length p - i)")
  show "wf (measure (\<lambda>(p, abbreviations, result, lastBreak, i). length p - i))" by simp
next
  fix p :: string and abbreviations result lastBreak i i'
  assume "i < length p" "scanStep p abbreviations lastBreak i = Advance i'"
  then have "i < i'" using scanStep_Advance by blast
  with \<open>i < length p\<close>
  show "((p, abbreviations, result, lastBreak, i'), (p, abbreviations, result, lastBreak, i))
        \<in> measure (\<lambda>(p, abbreviations, result, lastBreak, i). length p - i)"
    by simp
next
  fix p :: string and abbreviations result lastBreak i b r
  assume "i < length p" "scanStep p abbreviations lastBreak i = Boundary b r"
  then have "i < b \<and> r = skipSpace p b" using scanStep_Boundary by blast
  then have "i < r" using skipSpace_ge[of b p] by simp
  with \<open>i < length p\<close>
  show "((p, abbreviations, result @ slice p lastBreak b @ [NL], r, r),
         (p, abbreviations, result, lastBreak, i))
        \<in> measure (\<lambda>(p, abbreviations, result, lastBreak, i). length p - i)"
    by simp
qed

declare scanLoop.simps [simp del]

definition ventilateBySentence :: "string \<Rightarrow> Config \<Rightarrow> string \<times> error option" where
  "ventilateBySentence p cfg =
     (let abbreviations =
            (case Abbreviations cfg of None \<Rightarrow> defaultAbbreviations | Some m \<Rightarrow> m)
      in case scanLoop p abbreviations [] 0 0 of
           Inl e \<Rightarrow> ([], Some e)
         | Inr (result, lastBreak) \<Rightarrow>
             (TrimSuffix (if lastBreak < length p then result @ drop lastBreak p else result) [NL],
              None))"

section \<open>Line-length wrapper\<close>

text \<open>The loop over \<open>words[1:]\<close> of \<open>ventilateByLineLength\<close>, with the builder and
  \<open>currentLine\<close> as its state; after the loop \<open>currentLine\<close> is written.\<close>

fun wrapWords :: "int \<Rightarrow> string \<Rightarrow> string \<Rightarrow> string list \<Rightarrow> string" where
  "wrapWords maxLen result currentLine [] = result @ currentLine"
| "wrapWords maxLen result currentLine (word # ws) =
     (if int (length currentLine) + 1 + int (length word) > maxLen
      then wrapWords maxLen (result @ currentLine @ [NL]) word ws
      else wrapWords maxLen result (currentLine @ '' '' @ word) ws)"

definition ventilateByLineLength :: "string \<Rightarrow> int \<Rightarrow> string \<times> error option" where
  "ventilateByLineLength p maxLen =
     (case Fields p of
        [] \<Rightarrow> ([], None)
      | w # ws \<Rightarrow> (wrapWords maxLen [] w ws, None))"

section \<open>Block classifier and orchestrator\<close>

definition ventilateParagraph :: "string \<Rightarrow> Config \<Rightarrow> string \<times> error option" where
  "ventilateParagraph p cfg =
     (if SentenceBreak cfg then ventilateBySentence p cfg
      else if RespectMaxLineLength cfg \<and> MaxLineLength cfg > 0
        then ventilateByLineLength p (MaxLineLength cfg)
      else (p, None))"

text \<open>
  \<open>isNonProseBlock\<close> tests \<open>unicode.IsDigit\<close> on the runes of the text before the first
  \<open>". "\<close>. On ASCII bytes that is the range \<open>0\<close> to \<open>9\<close>. The table of the decimal digits
  beyond ASCII is not part of the repository; it is the parameter \<open>uniDigits\<close>, which
  says of a byte sequence with a byte from 0x80 on whether all its runes are decimal
  digits. Every theorem below holds for every such table.
\<close>

definition isAllDigits :: "(string \<Rightarrow> bool) \<Rightarrow> string \<Rightarrow> bool" where
  "isAllDigits uniDigits numPart =
     (if list_all (\<lambda>c. (of_char c :: nat) < 0x80) numPart
      then list_all (\<lambda>c. 0x30 \<le> (of_char c :: nat) \<and> (of_char c :: nat) \<le> 0x39) numPart
      else uniDigits numPart)"

definition isNonProseBlock :: "(string \<Rightarrow> bool) \<Rightarrow> string \<Rightarrow> bool" where
  "isNonProseBlock uniDigits line =
     (if line = [] then False
      else if HasPrefix line ''#'' \<or> HasPrefix line ''>'' \<or> HasPrefix line ''- '' \<or>
              HasPrefix line ''* '' \<or> HasPrefix line ''---'' then True
      else (case Index line ''. '' of
              None \<Rightarrow> False
            | Some i \<Rightarrow>
                if i > 0 then
                  (let numPart = take i line in
                   if length numPart = 0 then False else isAllDigits uniDigits numPart)
                else False))"

text \<open>The loop of \<open>ventilateBlock\<close> that joins the lines of a prose block: a newline
  after a line that ends in a colon, a space after any other.\<close>

fun joinLines :: "string list \<Rightarrow> string" where
  "joinLines [] = []"
| "joinLines [line] = line"
| "joinLines (line # next # rest) =
     line @ (if HasSuffix (TrimSpace line) '':'' then [NL] else '' '') @ joinLines (next # rest)"

definition ventilateBlock ::
  "(string \<Rightarrow> bool) \<Rightarrow> string list \<Rightarrow> Config \<Rightarrow> string \<times> error option" where
  "ventilateBlock uniDigits blockLines cfg =
     (case blockLines of
        [] \<Rightarrow> ([], Some Panic)
      | first # _ \<Rightarrow>
          (let firstLineTrimmed = TrimSpace first in
           if isNonProseBlock uniDigits firstLineTrimmed \<or> HasPrefix firstLineTrimmed [BACKTICK, BACKTICK, BACKTICK]
           then (Join blockLines [NL], None)
           else ventilateParagraph (joinLines blockLines) cfg))"

text \<open>The closure \<open>processBlock\<close> of \<open>Ventilate\<close>, on the state it captures
  (\<open>processedBlocks\<close>, \<open>blockBuffer\<close>), and the loop over the lines.\<close>

definition processBlock ::
  "(string \<Rightarrow> bool) \<Rightarrow> Config \<Rightarrow> string list \<times> string list \<Rightarrow> error + (string list \<times> string list)" where
  "processBlock uniDigits cfg st =
     (case st of (processedBlocks, blockBuffer) \<Rightarrow>
        if length blockBuffer > 0 then
          (case ventilateBlock uniDigits blockBuffer cfg of
             (processed, Some err) \<Rightarrow> Inl err
           | (processed, None) \<Rightarrow> Inr (processedBlocks @ [processed], []))
        else Inr (processedBlocks, blockBuffer))"

fun linesLoop ::
  "(string \<Rightarrow> bool) \<Rightarrow> Config \<Rightarrow> string list \<Rightarrow> string list \<times> string list \<Rightarrow>
   error + (string list \<times> string list)" where
  "linesLoop uniDigits cfg [] st = Inr st"
| "linesLoop uniDigits cfg (line # rest) st =
     (if TrimSpace line = [] then
        (case processBlock uniDigits cfg st of
           Inl err \<Rightarrow> Inl err
         | Inr st' \<Rightarrow> linesLoop uniDigits cfg rest st')
      else linesLoop uniDigits cfg rest (fst st, snd st @ [line]))"

definition Ventilate :: "(string \<Rightarrow> bool) \<Rightarrow> string \<Rightarrow> Config \<Rightarrow> string \<times> error option" where
  "Ventilate uniDigits input cfg =
     (if input = [] then ([], None)
      else case checkUnterminatedMarkup input of
        Some err \<Rightarrow> ([], Some err)
      | None \<Rightarrow>
          (let hasTrailingNewline = (HasSuffix input [NL] \<or> HasSuffix input [CR, NL]);
               lines = Split (ReplaceAll_CRLF input) NL
           in case linesLoop uniDigits cfg lines ([], []) of
                Inl err \<Rightarrow> ([], Some err)
              | Inr st \<Rightarrow>
                  (case processBlock uniDigits cfg st of
                     Inl err \<Rightarrow> ([], Some err)
                   | Inr (processedBlocks, blockBuffer) \<Rightarrow>
                       (let output = Join processedBlocks [NL, NL] in
                        (if hasTrailingNewline \<and> \<not> HasSuffix output [NL]
                         then output @ [NL] else output, None)))))"

section \<open>The revision of the library in \<open>advent.go\<close>\<close>

text \<open>
  The repository holds two revisions of the library file. The definitions above embed
  the one with the ellipsis guard, the blank-line block separation, the colon rule and
  the trailing-newline step. The other one, \<open>advent.go\<close>, shares \<open>checkUnterminatedMarkup\<close>,
  \<open>findMarkupEnd\<close>, \<open>ventilateByLineLength\<close> and the body of the sentence scanner except
  for the ellipsis guard; its \<open>isNonProseBlock\<close> and its \<open>Ventilate\<close> differ. They are
  embedded here under the suffix \<open>_adv\<close>, to compare the two.
\<close>

definition scanStep_adv :: "string \<Rightarrow> (string \<Rightarrow> bool) \<Rightarrow> nat \<Rightarrow> nat \<Rightarrow> action" where
  "scanStep_adv p abbreviations lastBreak i =
     (if p ! i = CHR ''{'' then
        (case findMarkupEnd p i of
           None \<Rightarrow> Abort UnterminatedMarkupSpan
         | Some e \<Rightarrow>
             (let j = skipSpace p (e + 1) in
              if j \<ge> length p \<or> IsUpper (p ! j) then
                (if lastBreak \<le> e + 1 \<and> e + 1 \<le> length p then Boundary (e + 1) j
                 else Abort Panic)
              else Advance (e + 1)))
      else if p ! i = CHR ''.'' \<or> p ! i = CHR ''!'' \<or> p ! i = CHR ''?'' then
        (if abbreviations (wordBefore p i) then Advance (i + 1)
         else if quoteGuard p i then Advance (i + 1)
         else
           (let j = skipWrappers p (i + 1) in
            if j \<ge> length p \<or> IsSpace (p ! j) then
              (if lastBreak \<le> j \<and> j \<le> length p then Boundary j (skipSpace p j)
               else Abort Panic)
            else Advance (i + 1)))
      else Advance (i + 1))"

lemma scanStep_adv_Advance:
  assumes "scanStep_adv p abbr lb i = Advance i'" and "i < length p"
  shows "i < i'"
  using assms
  by (auto simp: scanStep_adv_def Let_def split: if_splits option.splits
           dest!: findMarkupEnd_bounds)

lemma scanStep_adv_Boundary:
  assumes "scanStep_adv p abbr lb i = Boundary b r" and "i < length p"
  shows "i < r"
proof -
  have w: "i + 1 \<le> skipWrappers p (i + 1)" by (rule skipWrappers_ge)
  have s: "\<And>b. b \<le> skipSpace p b" by (rule skipSpace_ge)
  from assms show ?thesis using w s[of "skipWrappers p (i + 1)"]
    by (auto simp: scanStep_adv_def Let_def split: if_splits option.splits
             dest!: findMarkupEnd_bounds intro: less_le_trans[OF _ s])
qed

function scanLoop_adv ::
  "string \<Rightarrow> (string \<Rightarrow> bool) \<Rightarrow> string \<Rightarrow> nat \<Rightarrow> nat \<Rightarrow> error + (string \<times> nat)" where
  "scanLoop_adv p abbreviations result lastBreak i =
     (if i < length p then
        (case scanStep_adv p abbreviations lastBreak i of
           Advance i' \<Rightarrow> scanLoop_adv p abbreviations result lastBreak i'
         | Boundary b r \<Rightarrow> scanLoop_adv p abbreviations (result @ slice p lastBreak b @ [NL]) r r
         | Abort e \<Rightarrow> Inl e)
      else Inr (result, lastBreak))"
  by pat_completeness auto
termination
proof (relation "measure (\<lambda>(p, abbreviations, result, lastBreak, i). length p - i)")
  show "wf (measure (\<lambda>(p, abbreviations, result, lastBreak, i). length p - i))" by simp
next
  fix p :: string and abbreviations result lastBreak i i'
  assume "i < length p" "scanStep_adv p abbreviations lastBreak i = Advance i'"
  then have "i < i'" using scanStep_adv_Advance by blast
  with \<open>i < length p\<close>
  show "((p, abbreviations, result, lastBreak, i'), (p, abbreviations, result, lastBreak, i))
        \<in> measure (\<lambda>(p, abbreviations, result, lastBreak, i). length p - i)"
    by simp
next
  fix p :: string and abbreviations result lastBreak i b r
  assume "i < length p" "scanStep_adv p abbreviations lastBreak i = Boundary b r"
  then have "i < r" using scanStep_adv_Boundary by blast
  with \<open>i < length p\<close>
  show "((p, abbreviations, result @ slice p lastBreak b @ [NL], r, r),
         (p, abbreviations, result, lastBreak, i))
        \<in> measure (\<lambda>(p, abbreviations, result, lastBreak, i). length p - i)"
    by simp
qed

declare scanLoop_adv.simps [simp del]

definition ventilateBySentence_adv :: "string \<Rightarrow> Config \<Rightarrow> string \<times> error option" where
  "ventilateBySentence_adv p cfg =
     (let abbreviations =
            (case Abbreviations cfg of None \<Rightarrow> defaultAbbreviations | Some m \<Rightarrow> m)
      in case scanLoop_adv p abbreviations [] 0 0 of
           Inl e \<Rightarrow> ([], Some e)
         | Inr (result, lastBreak) \<Rightarrow>
             (TrimSuffix (if lastBreak < length p then result @ drop lastBreak p else result) [NL],
              None))"

definition ventilateParagraph_adv :: "string \<Rightarrow> Config \<Rightarrow> string \<times> error option" where
  "ventilateParagraph_adv p cfg =
     (if SentenceBreak cfg then ventilateBySentence_adv p cfg
      else if RespectMaxLineLength cfg \<and> MaxLineLength cfg > 0
        then ventilateByLineLength p (MaxLineLength cfg)
      else (p, None))"

definition isNonProseBlock_adv :: "(string \<Rightarrow> bool) \<Rightarrow> string \<Rightarrow> bool" where
  "isNonProseBlock_adv uniDigits line =
     (if line = [] then True
      else if HasPrefix line ''#'' \<or> HasPrefix line ''>'' \<or> HasPrefix line ''- '' \<or>
              HasPrefix line ''* '' then True
      else (case Index line ''. '' of
              None \<Rightarrow> False
            | Some i \<Rightarrow>
                if i > 0 then
                  (let numPart = take i line in
                   if length numPart = 0 then False else isAllDigits uniDigits numPart)
                else False))"

text \<open>The two inner loops of \<open>Ventilate\<close> in \<open>advent.go\<close>, on the builder and the lines
  from \<open>lines[i]\<close> on; each returns the builder and the lines the outer loop goes on with.
  The fence loop stops behind the closing fence, the paragraph loop before the first
  line that \<open>isNonProseBlock\<close> accepts (a blank line is one).\<close>

fun fenceLoop_adv :: "string \<Rightarrow> string list \<Rightarrow> string \<times> string list" where
  "fenceLoop_adv codeBlock [] = (codeBlock, [])"
| "fenceLoop_adv codeBlock (line # rest) =
     (if HasPrefix (TrimSpace line) [BACKTICK, BACKTICK, BACKTICK]
      then (codeBlock @ [NL] @ line, rest)
      else fenceLoop_adv (codeBlock @ [NL] @ line) rest)"

fun paraLoop_adv :: "(string \<Rightarrow> bool) \<Rightarrow> string \<Rightarrow> string list \<Rightarrow> string \<times> string list" where
  "paraLoop_adv uniDigits para [] = (para, [])"
| "paraLoop_adv uniDigits para (line # rest) =
     (if isNonProseBlock_adv uniDigits (TrimSpace line) then (para, line # rest)
      else paraLoop_adv uniDigits (para @ '' '' @ line) rest)"

lemma fenceLoop_adv_length: "length (snd (fenceLoop_adv b ls)) \<le> length ls"
  by (induction ls arbitrary: b) (auto simp: le_SucI)

lemma paraLoop_adv_length: "length (snd (paraLoop_adv uniDigits b ls)) \<le> length ls"
  by (induction ls arbitrary: b) (auto simp: le_SucI)

function blocksLoop_adv ::
  "(string \<Rightarrow> bool) \<Rightarrow> Config \<Rightarrow> string list \<Rightarrow> string list \<Rightarrow> error + string list" where
  "blocksLoop_adv uniDigits cfg [] blocks = Inr blocks"
| "blocksLoop_adv uniDigits cfg (line # rest) blocks =
     (let trimmedLine = TrimSpace line in
      if HasPrefix trimmedLine [BACKTICK, BACKTICK, BACKTICK] then
        blocksLoop_adv uniDigits cfg (snd (fenceLoop_adv line rest))
          (blocks @ [fst (fenceLoop_adv line rest)])
      else if isNonProseBlock_adv uniDigits trimmedLine then
        blocksLoop_adv uniDigits cfg rest (if trimmedLine \<noteq> [] then blocks @ [line] else blocks)
      else
        (case ventilateParagraph_adv (fst (paraLoop_adv uniDigits line rest)) cfg of
           (ventilated, Some err) \<Rightarrow> Inl err
         | (ventilated, None) \<Rightarrow>
             blocksLoop_adv uniDigits cfg (snd (paraLoop_adv uniDigits line rest))
               (blocks @ [ventilated])))"
  by pat_completeness auto
termination
  by (relation "measure (\<lambda>(uniDigits, cfg, lines, blocks). length lines)")
     (simp_all add: fenceLoop_adv_length paraLoop_adv_length less_Suc_eq_le)

declare blocksLoop_adv.simps [simp del]

definition Ventilate_adv :: "(string \<Rightarrow> bool) \<Rightarrow> string \<Rightarrow> Config \<Rightarrow> string \<times> error option" where
  "Ventilate_adv uniDigits input cfg =
     (if input = [] then ([], None)
      else case checkUnterminatedMarkup input of
        Some err \<Rightarrow> ([], Some err)
      | None \<Rightarrow>
          (case blocksLoop_adv uniDigits cfg (Split input NL) [] of
             Inl err \<Rightarrow> ([], Some err)
           | Inr blocks \<Rightarrow>
               (let separator = (if ParagraphSpacing cfg = ''blank-line'' then [NL, NL] else [NL])
                in (Join blocks separator, None))))"

section \<open>Properties of the span scanner and of one pass of the sentence scanner\<close>

lemma skipSpace_chars: "j \<le> k \<Longrightarrow> k < skipSpace p j \<Longrightarrow> IsSpace (p ! k)"
proof -
  assume a: "j \<le> k" "k < skipSpace p j"
  then have lt: "k - j < length (takeWhile IsSpace (drop j p))" by (simp add: skipSpace_def)
  then have "takeWhile IsSpace (drop j p) ! (k - j) \<in> set (takeWhile IsSpace (drop j p))"
    by (rule nth_mem)
  then have "IsSpace (takeWhile IsSpace (drop j p) ! (k - j))" by (rule set_takeWhileD[THEN conjunct2])
  moreover have "takeWhile IsSpace (drop j p) ! (k - j) = drop j p ! (k - j)"
    using lt by (rule takeWhile_nth)
  moreover have "k < length p"
    using lt length_takeWhile_le[of IsSpace "drop j p"] a by simp
  ultimately show ?thesis using a by simp
qed

lemma skipSpace_stop: "skipSpace p j < length p \<Longrightarrow> \<not> IsSpace (p ! skipSpace p j)"
proof -
  assume a: "skipSpace p j < length p"
  then have "length (takeWhile IsSpace (drop j p)) < length (drop j p)" by (simp add: skipSpace_def)
  then have "\<not> IsSpace (drop j p ! length (takeWhile IsSpace (drop j p)))"
    by (rule nth_length_takeWhile)
  then show ?thesis using a by (simp add: skipSpace_def)
qed

lemma skipWrappers_chars: "j \<le> k \<Longrightarrow> k < skipWrappers p j \<Longrightarrow> isWrapper (p ! k)"
proof -
  assume a: "j \<le> k" "k < skipWrappers p j"
  then have lt: "k - j < length (takeWhile isWrapper (drop j p))" by (simp add: skipWrappers_def)
  then have "takeWhile isWrapper (drop j p) ! (k - j) \<in> set (takeWhile isWrapper (drop j p))"
    by (rule nth_mem)
  then have "isWrapper (takeWhile isWrapper (drop j p) ! (k - j))" by (rule set_takeWhileD[THEN conjunct2])
  moreover have "takeWhile isWrapper (drop j p) ! (k - j) = drop j p ! (k - j)"
    using lt by (rule takeWhile_nth)
  moreover have "k < length p"
    using lt length_takeWhile_le[of isWrapper "drop j p"] a by simp
  ultimately show ?thesis using a by simp
qed

lemma skipWrappers_stop: "skipWrappers p j < length p \<Longrightarrow> \<not> isWrapper (p ! skipWrappers p j)"
proof -
  assume a: "skipWrappers p j < length p"
  then have "length (takeWhile isWrapper (drop j p)) < length (drop j p)" by (simp add: skipWrappers_def)
  then have "\<not> isWrapper (drop j p ! length (takeWhile isWrapper (drop j p)))"
    by (rule nth_length_takeWhile)
  then show ?thesis using a by (simp add: skipWrappers_def)
qed

lemma findMarkupEnd_loop_close:
  "findMarkupEnd_loop cs level i = Some e \<Longrightarrow> cs ! (e - i) = CHR ''}''"
proof (induction cs arbitrary: level i)
  case Nil
  then show ?case by simp
next
  case (Cons c cs)
  show ?case
  proof (cases "c = CHR ''}'' \<and> level - 1 = 0")
    case True
    with Cons.prems show ?thesis by simp
  next
    case False
    then obtain l' where r: "findMarkupEnd_loop cs l' (Suc i) = Some e"
      using Cons.prems by (auto split: if_splits)
    then have "Suc i \<le> e" using findMarkupEnd_loop_bounds by blast
    moreover from r have "cs ! (e - Suc i) = CHR ''}''" by (rule Cons.IH)
    ultimately show ?thesis by (simp add: Suc_diff_le)
  qed
qed

lemma findMarkupEnd_close: "findMarkupEnd p i = Some e \<Longrightarrow> p ! e = CHR ''}''"
proof -
  assume a: "findMarkupEnd p i = Some e"
  then have b: "i < e \<and> e < length p" by (rule findMarkupEnd_bounds)
  from a have "drop (Suc i) p ! (e - Suc i) = CHR ''}''"
    unfolding findMarkupEnd_def by (rule findMarkupEnd_loop_close)
  with b show ?thesis by simp
qed



lemma scanStep_Advance_cases:
  assumes "scanStep p abbr lb i = Advance i'" and "i < length p"
  obtains (ellipsis) "HasPrefix (drop i p) ''...''" "i' = i + 3"
  | (span) e where "\<not> HasPrefix (drop i p) ''...''" "p ! i = CHR ''{''"
      "findMarkupEnd p i = Some e" "i' = e + 1"
      "skipSpace p (e + 1) < length p" "\<not> IsUpper (p ! skipSpace p (e + 1))"
  | (char) "\<not> HasPrefix (drop i p) ''...''" "p ! i \<noteq> CHR ''{''" "i' = i + 1"
  using assms
  by (auto simp: scanStep_def Let_def split: if_splits option.splits)

lemma scanStep_Boundary_cases:
  assumes "scanStep p abbr lb i = Boundary b r" and "i < length p"
  obtains (span) e where "\<not> HasPrefix (drop i p) ''...''" "p ! i = CHR ''{''"
      "findMarkupEnd p i = Some e" "b = e + 1" "r = skipSpace p b"
      "length p \<le> r \<or> IsUpper (p ! r)" "lb \<le> b"
  | (punct) "\<not> HasPrefix (drop i p) ''...''" "p ! i \<noteq> CHR ''{''"
      "p ! i = CHR ''.'' \<or> p ! i = CHR ''!'' \<or> p ! i = CHR ''?''"
      "\<not> abbr (wordBefore p i)" "\<not> quoteGuard p i"
      "b = skipWrappers p (i + 1)" "r = skipSpace p b"
      "length p \<le> b \<or> IsSpace (p ! b)" "lb \<le> b"
  using assms
  by (auto simp: scanStep_def Let_def split: if_splits option.splits)


lemma ellipsis_chars:
  assumes "HasPrefix (drop i p) ''...''"
  shows "i + 3 \<le> length p \<and> p ! i = CHR ''.'' \<and> p ! (i + 1) = CHR ''.'' \<and> p ! (i + 2) = CHR ''.''"
proof -
  have len: "i + 3 \<le> length p" using HasPrefix_drop_length[OF assms] by simp
  from assms obtain zs where z: "drop i p = ''...'' @ zs"
    unfolding HasPrefix_def prefix_def by blast
  have "drop i p ! 0 = CHR ''.''" "drop i p ! 1 = CHR ''.''" "drop i p ! 2 = CHR ''.''"
    unfolding z by simp_all
  moreover have "drop i p ! 0 = p ! i" "drop i p ! 1 = p ! (i + 1)" "drop i p ! 2 = p ! (i + 2)"
    using len by simp_all
  ultimately show ?thesis using len by simp
qed



section \<open>The boundaries of a scan\<close>

text \<open>
  \<open>scanBreaks\<close> runs the main loop of \<open>ventilateBySentence\<close> once more and collects,
  instead of the text, the positions \<open>b\<close> of the boundaries it confirms, in order: the
  places of the paragraph where a newline is written. \<open>renderBreaks\<close> writes a paragraph
  with given boundaries the way the loop does: the text up to the boundary, a newline,
  and on from the first byte after the white space that follows. Lemma
  \<open>ventilateBySentence_render\<close> shows that the output of \<open>ventilateBySentence\<close> is the
  paragraph rendered with the boundaries of \<open>scanBreaks\<close>.
\<close>

function scanBreaks :: "string \<Rightarrow> (string \<Rightarrow> bool) \<Rightarrow> nat \<Rightarrow> nat \<Rightarrow> nat list" where
  "scanBreaks p abbreviations lastBreak i =
     (if i < length p then
        (case scanStep p abbreviations lastBreak i of
           Advance i' \<Rightarrow> scanBreaks p abbreviations lastBreak i'
         | Boundary b r \<Rightarrow> b # scanBreaks p abbreviations r r
         | Abort e \<Rightarrow> [])
      else [])"
  by pat_completeness auto
termination
proof (relation "measure (\<lambda>(p, abbreviations, lastBreak, i). length p - i)")
  show "wf (measure (\<lambda>(p, abbreviations, lastBreak, i). length p - i))" by simp
next
  fix p :: string and abbreviations lastBreak i i'
  assume "i < length p" "scanStep p abbreviations lastBreak i = Advance i'"
  then have "i < i'" using scanStep_Advance by blast
  with \<open>i < length p\<close>
  show "((p, abbreviations, lastBreak, i'), (p, abbreviations, lastBreak, i))
        \<in> measure (\<lambda>(p, abbreviations, lastBreak, i). length p - i)"
    by simp
next
  fix p :: string and abbreviations lastBreak i b r
  assume "i < length p" "scanStep p abbreviations lastBreak i = Boundary b r"
  then have "i < b \<and> r = skipSpace p b" using scanStep_Boundary by blast
  then have "i < r" using skipSpace_ge[of b p] by simp
  with \<open>i < length p\<close>
  show "((p, abbreviations, r, r), (p, abbreviations, lastBreak, i))
        \<in> measure (\<lambda>(p, abbreviations, lastBreak, i). length p - i)"
    by simp
qed

declare scanBreaks.simps [simp del]

fun renderBreaks :: "string \<Rightarrow> nat \<Rightarrow> nat list \<Rightarrow> string" where
  "renderBreaks p lastBreak [] = drop lastBreak p"
| "renderBreaks p lastBreak (b # bs) =
     slice p lastBreak b @ [NL] @ renderBreaks p (skipSpace p b) bs"

definition effectiveAbbreviations :: "Config \<Rightarrow> string \<Rightarrow> bool" where
  "effectiveAbbreviations cfg =
     (case Abbreviations cfg of None \<Rightarrow> defaultAbbreviations | Some m \<Rightarrow> m)"

lemma scanLoop_render:
  "scanLoop p abbr res lb i = Inr (res', lb') \<Longrightarrow>
   res' @ drop lb' p = res @ renderBreaks p lb (scanBreaks p abbr lb i)"
proof (induction p abbr res lb i rule: scanLoop.induct)
  case (1 p abbr res lb i)
  show ?case
  proof (cases "i < length p")
    case False
    then have "scanBreaks p abbr lb i = []" by (simp add: scanBreaks.simps[of p abbr lb i])
    moreover from False "1.prems" have "res' = res \<and> lb' = lb"
      by (simp add: scanLoop.simps[of p abbr res lb i])
    ultimately show ?thesis by simp
  next
    case True
    show ?thesis
    proof (cases "scanStep p abbr lb i")
      case (Advance i')
      with "1.prems" True have "scanLoop p abbr res lb i' = Inr (res', lb')"
        by (simp add: scanLoop.simps[of p abbr res lb i])
      then have "res' @ drop lb' p = res @ renderBreaks p lb (scanBreaks p abbr lb i')"
        by (rule "1.IH"(1)[OF True Advance])
      with Advance True show ?thesis by (simp add: scanBreaks.simps[of p abbr lb i])
    next
      case (Boundary b r)
      then have r: "r = skipSpace p b" using scanStep_Boundary True by blast
      from "1.prems" True Boundary
      have "scanLoop p abbr (res @ slice p lb b @ [NL]) r r = Inr (res', lb')"
        by (simp add: scanLoop.simps[of p abbr res lb i])
      then have "res' @ drop lb' p =
                 (res @ slice p lb b @ [NL]) @ renderBreaks p r (scanBreaks p abbr r r)"
        by (rule "1.IH"(2)[OF True Boundary])
      with Boundary True r show ?thesis by (simp add: scanBreaks.simps[of p abbr lb i])
    next
      case (Abort e)
      with "1.prems" True show ?thesis by (simp add: scanLoop.simps[of p abbr res lb i])
    qed
  qed
qed

lemma ventilateBySentence_render:
  assumes "ventilateBySentence p cfg = (out, None)"
  shows "out = TrimSuffix (renderBreaks p 0 (scanBreaks p (effectiveAbbreviations cfg) 0 0)) [NL]"
proof (cases "scanLoop p (effectiveAbbreviations cfg) [] 0 0")
  case (Inl e)
  with assms show ?thesis by (simp add: ventilateBySentence_def effectiveAbbreviations_def)
next
  case (Inr x)
  obtain res' lb' where x: "x = (res', lb')" by (cases x)
  with Inr have "res' @ drop lb' p =
      [] @ renderBreaks p 0 (scanBreaks p (effectiveAbbreviations cfg) 0 0)"
    by (intro scanLoop_render) simp
  moreover have "(if lb' < length p then res' @ drop lb' p else res') = res' @ drop lb' p"
    by simp
  ultimately show ?thesis using assms Inr x
    by (simp add: ventilateBySentence_def effectiveAbbreviations_def)
qed












lemma ellipsis_HasPrefix:
  assumes "k + 3 \<le> length p" "p ! k = CHR ''.''" "p ! (k + 1) = CHR ''.''" "p ! (k + 2) = CHR ''.''"
  shows "HasPrefix (drop k p) ''...''"
proof -
  have "take 3 (drop k p) = [drop k p ! 0, drop k p ! 1, drop k p ! 2]"
    using assms(1) by (simp add: take_Suc_conv_app_nth numeral_3_eq_3)
  also have "\<dots> = ''...''" using assms by simp
  finally have "take 3 (drop k p) = ''...''" .
  then have "prefix ''...'' (drop k p)" by (metis take_is_prefix)
  then show ?thesis by (simp add: HasPrefix_def)
qed

lemma IsSpace_dot: "\<not> IsSpace (CHR ''.'')"
  by (simp add: IsSpace_def)

lemma isWrapper_dot: "\<not> isWrapper (CHR ''.'')"
  by (simp add: isWrapper_def)

lemma skipSpace_before:
  assumes "b < skipSpace p b"
  shows "IsSpace (p ! (skipSpace p b - 1))"
  using assms skipSpace_chars[of b "skipSpace p b - 1" p] by simp

lemma skipWrappers_before:
  assumes "j < skipWrappers p j"
  shows "isWrapper (p ! (skipWrappers p j - 1))"
  using assms skipWrappers_chars[of j "skipWrappers p j - 1" p] by simp

text \<open>An ellipsis that starts at \<open>k\<close>, not preceded by a full stop: the cursor never
  stands on its second or third full stop, and no boundary falls inside or right after it.\<close>

lemma scanStep_ellipsis:
  assumes dots: "k + 3 \<le> length p" "p ! k = CHR ''.''" "p ! (k + 1) = CHR ''.''"
      "p ! (k + 2) = CHR ''.''" "k = 0 \<or> p ! (k - 1) \<noteq> CHR ''.''"
    and i: "i < length p" "i \<noteq> k + 1" "i \<noteq> k + 2"
  shows "case scanStep p abbr lb i of
           Advance i' \<Rightarrow> i' \<noteq> k + 1 \<and> i' \<noteq> k + 2
         | Boundary b r \<Rightarrow> b \<noteq> k + 1 \<and> b \<noteq> k + 2 \<and> b \<noteq> k + 3 \<and> r \<noteq> k + 1 \<and> r \<noteq> k + 2
         | Abort e \<Rightarrow> True"
proof -
  have pre: "HasPrefix (drop k p) ''...''" using dots by (intro ellipsis_HasPrefix) simp_all
  have dot: "p ! j = CHR ''.''" if "k \<le> j" "j \<le> k + 2" for j
  proof -
    from that have "j = k \<or> j = k + 1 \<or> j = k + 2" by auto
    with dots show ?thesis by auto
  qed
  have resume: "skipSpace p b \<noteq> k + 1 \<and> skipSpace p b \<noteq> k + 2"
    if "b \<noteq> k + 1" "b \<noteq> k + 2" for b
  proof (cases "b < skipSpace p b")
    case False
    then have "skipSpace p b = b" using skipSpace_ge[of b p] by simp
    with that show ?thesis by simp
  next
    case True
    then have sp: "IsSpace (p ! (skipSpace p b - 1))" by (rule skipSpace_before)
    show ?thesis
    proof (rule ccontr)
      assume "\<not> ?thesis"
      then have "k \<le> skipSpace p b - 1 \<and> skipSpace p b - 1 \<le> k + 2" by auto
      then have "p ! (skipSpace p b - 1) = CHR ''.''" using dot by blast
      with sp IsSpace_dot show False by simp
    qed
  qed
  show ?thesis
  proof (cases "scanStep p abbr lb i")
    case (Advance i')
    from Advance i(1) have "i' \<noteq> k + 1 \<and> i' \<noteq> k + 2"
    proof (cases rule: scanStep_Advance_cases)
      case ellipsis
      then have c: "p ! i = CHR ''.'' \<and> p ! (i + 1) = CHR ''.''" using ellipsis_chars by blast
      show ?thesis
      proof (rule ccontr)
        assume "\<not> ?thesis"
        with ellipsis have "(k = i + 2 \<or> k = i + 1)" by auto
        then have "0 < k \<and> p ! (k - 1) = CHR ''.''" using c by auto
        with dots(5) show False by simp
      qed
    next
      case (span e)
      then have "p ! e = CHR ''}''" using findMarkupEnd_close by blast
      then have "\<not> (k \<le> e \<and> e \<le> k + 2)" using dot[of e] by auto
      with span show ?thesis by auto
    next
      case char
      then have "i \<noteq> k" using pre by auto
      with char i show ?thesis by auto
    qed
    with Advance show ?thesis by simp
  next
    case (Boundary b r)
    from Boundary i(1) have "b \<noteq> k + 1 \<and> b \<noteq> k + 2 \<and> b \<noteq> k + 3 \<and> r = skipSpace p b"
    proof (cases rule: scanStep_Boundary_cases)
      case (span e)
      then have "p ! e = CHR ''}''" using findMarkupEnd_close by blast
      then have "\<not> (k \<le> e \<and> e \<le> k + 2)" using dot[of e] by auto
      with span show ?thesis by auto
    next
      case punct
      show ?thesis
      proof (cases "i + 1 < skipWrappers p (i + 1)")
        case True
        then have "isWrapper (p ! (b - 1))" using punct(6) skipWrappers_before by blast
        then have "\<not> (k \<le> b - 1 \<and> b - 1 \<le> k + 2)" using dot[of "b - 1"] isWrapper_dot by auto
        moreover have "0 < b" using True punct(6) by simp
        ultimately show ?thesis using punct(7) by auto
      next
        case False
        then have "b = i + 1" using punct(6) skipWrappers_ge[of "i + 1" p] by simp
        moreover have "i \<noteq> k" using punct(1) pre by auto
        ultimately show ?thesis using i punct(7) by auto
      qed
    qed
    with Boundary resume[of b] show ?thesis by simp
  next
    case (Abort e)
    then show ?thesis by simp
  qed
qed

lemma scanBreaks_ellipsis:
  "k + 3 \<le> length p \<Longrightarrow> p ! k = CHR ''.'' \<Longrightarrow> p ! (k + 1) = CHR ''.'' \<Longrightarrow>
   p ! (k + 2) = CHR ''.'' \<Longrightarrow> k = 0 \<or> p ! (k - 1) \<noteq> CHR ''.'' \<Longrightarrow>
   i \<noteq> k + 1 \<Longrightarrow> i \<noteq> k + 2 \<Longrightarrow> b \<in> set (scanBreaks p abbr lb i) \<Longrightarrow>
   b \<noteq> k + 1 \<and> b \<noteq> k + 2 \<and> b \<noteq> k + 3"
proof (induction p abbr lb i rule: scanBreaks.induct)
  case (1 p abbr lb i)
  note dots = "1.prems"(1-5)
  show ?case
  proof (cases "i < length p")
    case False
    with "1.prems" show ?thesis by (simp add: scanBreaks.simps[of p abbr lb i])
  next
    case True
    note step = scanStep_ellipsis[OF dots True "1.prems"(6,7), of abbr lb]
    show ?thesis
    proof (cases "scanStep p abbr lb i")
      case (Advance i')
      with step have "i' \<noteq> k + 1" "i' \<noteq> k + 2" by simp_all
      moreover have "b \<in> set (scanBreaks p abbr lb i')"
        using "1.prems"(8) Advance True by (simp add: scanBreaks.simps[of p abbr lb i])
      ultimately show ?thesis using "1.IH"(1)[OF True Advance dots] by blast
    next
      case (Boundary b' r)
      with step have s: "b' \<noteq> k + 1 \<and> b' \<noteq> k + 2 \<and> b' \<noteq> k + 3" "r \<noteq> k + 1" "r \<noteq> k + 2"
        by simp_all
      have "b = b' \<or> b \<in> set (scanBreaks p abbr r r)"
        using "1.prems"(8) Boundary True by (simp add: scanBreaks.simps[of p abbr lb i])
      then show ?thesis using s "1.IH"(2)[OF True Boundary dots] by blast
    next
      case (Abort e)
      with "1.prems"(8) True show ?thesis by (simp add: scanBreaks.simps[of p abbr lb i])
    qed
  qed
qed

lemma LastIndexAny_loop_None:
  "(\<And>k. k < n \<Longrightarrow> s ! k \<notin> set chars) \<Longrightarrow> LastIndexAny_loop s chars n = None"
  by (induction n) auto

lemma LastIndexAny_loop_Some:
  "m < n \<Longrightarrow> s ! m \<in> set chars \<Longrightarrow> (\<And>k. m < k \<Longrightarrow> k < n \<Longrightarrow> s ! k \<notin> set chars) \<Longrightarrow>
   LastIndexAny_loop s chars n = Some m"
proof (induction n)
  case 0
  then show ?case by simp
next
  case (Suc n)
  show ?case
  proof (cases "m = n")
    case True
    with Suc.prems show ?thesis by simp
  next
    case False
    with Suc.prems have "m < n" by simp
    moreover have "s ! n \<notin> set chars" using Suc.prems(3)[of n] \<open>m < n\<close> by simp
    ultimately show ?thesis using Suc by simp
  qed
qed

text \<open>The word the abbreviation check looks up, described without the search: it is the
  end \<open>tok\<close> of \<open>p[:i+1]\<close> that holds no space and no newline and stands at the start of the
  paragraph or right after a space or a newline.\<close>

lemma wordBefore_token:
  assumes i: "i < length p"
    and split: "take (Suc i) p = pre @ tok" and tok: "tok \<noteq> []"
    and nosp: "CHR '' '' \<notin> set (butlast tok)" "NL \<notin> set (butlast tok)"
    and pre: "pre = [] \<or> last pre = CHR '' '' \<or> last pre = NL"
  shows "wordBefore p i = tok"
proof -
  have len: "length pre + length tok = Suc i" using split i
    by (metis length_append length_take min.absorb2 Suc_leI)
  have tk: "take i p = pre @ butlast tok"
  proof -
    have "take i p = butlast (take (Suc i) p)" using i by (simp add: butlast_take)
    also have "\<dots> = pre @ butlast tok" using split tok by (simp add: butlast_append)
    finally show ?thesis .
  qed
  have inner: "take i p ! k \<notin> set [CHR '' '', NL]" if "length pre \<le> k" "k < length (take i p)" for k
  proof -
    from that tk have "take i p ! k = butlast tok ! (k - length pre)"
      by (simp add: nth_append)
    moreover have "k - length pre < length (butlast tok)" using that tk by simp
    ultimately have "take i p ! k \<in> set (butlast tok)" by (metis nth_mem)
    with nosp show ?thesis by auto
  qed
  have start: "(case LastIndexAny (take i p) [CHR '' '', NL] of None \<Rightarrow> 0 | Some k \<Rightarrow> k + 1) = length pre"
  proof (cases "pre = []")
    case True
    then have "LastIndexAny_loop (take i p) [CHR '' '', NL] (length (take i p)) = None"
      using inner by (intro LastIndexAny_loop_None) simp
    with True show ?thesis by (simp add: LastIndexAny_def)
  next
    case False
    then have m: "length pre - 1 < length (take i p)" unfolding tk by (cases pre) auto
    have "take i p ! (length pre - 1) = last pre"
      using tk False by (simp add: nth_append last_conv_nth)
    with pre False have hit: "take i p ! (length pre - 1) \<in> set [CHR '' '', NL]" by auto
    have "LastIndexAny_loop (take i p) [CHR '' '', NL] (length (take i p)) = Some (length pre - 1)"
      using m hit
    proof (rule LastIndexAny_loop_Some)
      fix k assume "length pre - 1 < k" "k < length (take i p)"
      then show "take i p ! k \<notin> set [CHR '' '', NL]" using inner[of k] by simp
    qed
    with False show ?thesis by (simp add: LastIndexAny_def)
  qed
  have "slice p (length pre) (i + 1) = drop (length pre) (take (Suc i) p)"
    using len by (simp add: slice_def drop_take)
  also have "\<dots> = tok" using split by simp
  finally show ?thesis using start by (simp add: wordBefore_def Let_def)
qed



lemma slice_append: "a \<le> b \<Longrightarrow> b \<le> c \<Longrightarrow> slice p a c = slice p a b @ slice p b c"
proof -
  assume a: "a \<le> b" "b \<le> c"
  have "take (c - a) (drop a p) = take (b - a) (drop a p) @ take (c - b) (drop (b - a) (drop a p))"
    using a by (metis take_add le_add_diff_inverse diff_le_mono add_diff_cancel_left' diff_diff_cancel diff_add_inverse2 Nat.diff_diff_right le_trans add.commute Nat.add_diff_assoc)
  then show ?thesis using a by (simp add: slice_def)
qed

lemma slice_single: "i < length p \<Longrightarrow> slice p i (Suc i) = [p ! i]"
  by (simp add: slice_def take_Suc_conv_app_nth)

section \<open>Properties of white space and of \<open>Fields\<close>\<close>

definition asciiSpace :: "char \<Rightarrow> bool" where
  "asciiSpace c = spaceRune1 (of_char c)"

lemma asciiSpace_IsSpace: "asciiSpace c \<Longrightarrow> IsSpace c"
  by (auto simp: asciiSpace_def spaceRune1_def IsSpace_def)

lemma IsSpace_ascii: "IsSpace c \<Longrightarrow> (of_char c :: nat) < 0x80 \<Longrightarrow> asciiSpace c"
  by (auto simp: asciiSpace_def spaceRune1_def IsSpace_def Let_def)

lemma asciiSpace_NL: "asciiSpace NL" and asciiSpace_SP: "asciiSpace (CHR '' '')"
  by (simp_all add: asciiSpace_def spaceRune1_def)

lemma spaceWidth_asciiSpace: "asciiSpace a \<Longrightarrow> spaceWidth (a # v) = 1"
  by (cases v rule: spaceWidth.cases) (auto simp: asciiSpace_def)

text \<open>A white-space rune found at the front of a string is still there when the string
  goes on; and an ASCII byte ends every encoding that is under way.\<close>

lemma spaceWidth_extend: "0 < spaceWidth u \<Longrightarrow> spaceWidth (u @ v) = spaceWidth u"
proof (induction u rule: spaceWidth.induct)
  case 1
  then show ?case by simp
next
  case (2 a)
  then show ?case by (cases v rule: spaceWidth.cases) (auto split: if_splits)
next
  case (3 a b)
  then show ?case by (cases v) (auto split: if_splits)
next
  case (4 a b c rest)
  then show ?case by simp
qed

lemma spaceWidth_ascii_next:
  assumes "u \<noteq> []" and "(of_char a :: nat) < 0x80"
  shows "spaceWidth (u @ a # v) = spaceWidth u"
proof (cases u rule: spaceWidth.cases)
  case 1
  with assms show ?thesis by simp
next
  case (2 c)
  with assms(2) show ?thesis
    by (cases v) (auto simp: spaceRune2_def spaceRune3_def)
next
  case (3 c d)
  with assms(2) show ?thesis by (auto simp: spaceRune3_def)
next
  case (4 c d e rest)
  then show ?thesis by simp
qed

lemma asciiSpace_ascii: "asciiSpace a \<Longrightarrow> (of_char a :: nat) < 0x80"
  by (auto simp: asciiSpace_def spaceRune1_def)

lemma Fields_from_spaces:
  "list_all asciiSpace ws \<Longrightarrow> Fields_from [] (ws @ y) = Fields_from [] y"
proof (induction ws)
  case Nil
  then show ?case by simp
next
  case (Cons a ws)
  then have "spaceWidth (a # ws @ y) = 1" by (simp add: spaceWidth_asciiSpace)
  with Cons show ?case by (subst Fields_from.simps) simp
qed

lemma Fields_from_Nil: "Fields_from cur [] = (if cur = [] then [] else [cur])"
  by (subst Fields_from.simps) simp

lemma Fields_from_append:
  "ws \<noteq> [] \<Longrightarrow> list_all asciiSpace ws \<Longrightarrow>
   Fields_from cur (u @ ws @ y) = Fields_from cur u @ Fields_from [] y"
proof (induction cur u rule: Fields_from.induct)
  case (1 cur u)
  show ?case
  proof (cases u)
    case Nil
    from "1.prems" obtain a ws' where ws: "ws = a # ws'" "asciiSpace a" "list_all asciiSpace ws'"
      by (cases ws) auto
    then have "spaceWidth (ws @ y) = 1" by (simp add: spaceWidth_asciiSpace)
    then have "Fields_from cur (ws @ y) =
        (if cur = [] then Fields_from [] (ws' @ y) else cur # Fields_from [] (ws' @ y))"
      using ws by (subst Fields_from.simps) simp
    with ws Nil show ?thesis by (simp add: Fields_from_spaces Fields_from_Nil)
  next
    case (Cons c cs)
    from "1.prems" obtain a ws' where ws: "ws = a # ws'" "asciiSpace a" by (cases ws) auto
    have sw: "spaceWidth (u @ ws @ y) = spaceWidth u"
      using Cons ws asciiSpace_ascii[of a] spaceWidth_ascii_next[of u a "ws' @ y"] by simp
    show ?thesis
    proof (cases "spaceWidth u = 0")
      case True
      have "Fields_from cur (u @ ws @ y) = Fields_from (cur @ [c]) (cs @ ws @ y)"
        using True sw Cons by (subst Fields_from.simps) simp
      also have "\<dots> = Fields_from (cur @ [c]) cs @ Fields_from [] y"
        using "1.IH"(1)[OF Cons True "1.prems"] .
      also have "Fields_from (cur @ [c]) cs = Fields_from cur u"
        using True Cons by (subst (2) Fields_from.simps) simp
      finally show ?thesis .
    next
      case False
      have le: "spaceWidth u \<le> length u" by (rule spaceWidth_le)
      then have d: "drop (spaceWidth u) (u @ ws @ y) = drop (spaceWidth u) u @ ws @ y" by simp
      show ?thesis
      proof (cases "cur = []")
        case True
        have "Fields_from cur (u @ ws @ y) = Fields_from [] (drop (spaceWidth u) u @ ws @ y)"
          using False sw Cons True d by (subst Fields_from.simps) simp
        also have "\<dots> = Fields_from [] (drop (spaceWidth u) u) @ Fields_from [] y"
          using "1.IH"(2)[OF Cons False True "1.prems"] .
        also have "Fields_from [] (drop (spaceWidth u) u) = Fields_from cur u"
          using False Cons True by (subst (2) Fields_from.simps) simp
        finally show ?thesis .
      next
        case notnil: False
        have "Fields_from cur (u @ ws @ y) = cur # Fields_from [] (drop (spaceWidth u) u @ ws @ y)"
          using False sw Cons notnil d by (subst Fields_from.simps) simp
        also have "\<dots> = cur # Fields_from [] (drop (spaceWidth u) u) @ Fields_from [] y"
          using "1.IH"(3)[OF Cons False notnil "1.prems"] by simp
        finally have e1: "Fields_from cur (u @ ws @ y) =
            cur # Fields_from [] (drop (spaceWidth u) u) @ Fields_from [] y" .
        have e2: "Fields_from cur u = cur # Fields_from [] (drop (spaceWidth u) u)"
          using False Cons notnil by (subst Fields_from.simps) simp
        show ?thesis using e1 e2 by simp
      qed
    qed
  qed
qed

lemma Fields_append:
  "ws \<noteq> [] \<Longrightarrow> list_all asciiSpace ws \<Longrightarrow> Fields (u @ ws @ y) = Fields u @ Fields y"
  by (simp add: Fields_def Fields_from_append)

lemma Fields_Nil: "Fields [] = []"
  by (simp add: Fields_def Fields_from_Nil)

lemma Fields_append_spaces: "list_all asciiSpace ws \<Longrightarrow> Fields (u @ ws) = Fields u"
proof (cases "ws = []")
  case True
  then show ?thesis by simp
next
  case False
  assume "list_all asciiSpace ws"
  with False have "Fields (u @ ws @ []) = Fields u @ Fields []" by (rule Fields_append)
  then show ?thesis by (simp add: Fields_Nil)
qed

lemma Fields_TrimSuffix_NL: "Fields (TrimSuffix s [NL]) = Fields s"
proof (cases "HasSuffix s [NL]")
  case False
  then show ?thesis by (simp add: TrimSuffix_def)
next
  case True
  then obtain x where x: "s = x @ [NL]" by (auto simp: HasSuffix_def suffix_def)
  then have "TrimSuffix s [NL] = x" using True by (simp add: TrimSuffix_def)
  moreover have "Fields (x @ [NL]) = Fields x"
    by (rule Fields_append_spaces) (simp add: asciiSpace_NL)
  ultimately show ?thesis using x by simp
qed

text \<open>A field holds no white space, and splitting it again gives the field itself.\<close>

definition noSpaceRune :: "string \<Rightarrow> bool" where
  "noSpaceRune u = (\<forall>k < length u. spaceWidth (drop k u) = 0)"

lemma Fields_from_noSpaceRune:
  "noSpaceRune u \<Longrightarrow> Fields_from cur u = (if cur @ u = [] then [] else [cur @ u])"
proof (induction u arbitrary: cur)
  case Nil
  then show ?case by (simp add: Fields_from_Nil)
next
  case (Cons c u)
  from Cons.prems have z: "spaceWidth (c # u) = 0" by (auto simp: noSpaceRune_def)
  have "noSpaceRune u" unfolding noSpaceRune_def
  proof (intro allI impI)
    fix k assume "k < length u"
    then have "spaceWidth (drop (Suc k) (c # u)) = 0"
      using Cons.prems unfolding noSpaceRune_def by (metis Suc_less_eq length_Cons)
    then show "spaceWidth (drop k u) = 0" by simp
  qed
  then have "Fields_from (cur @ [c]) u = [(cur @ [c]) @ u]" using Cons.IH[of "cur @ [c]"] by simp
  with z show ?case by (subst Fields_from.simps) simp
qed

lemma Fields_from_fields:
  "(\<forall>k < length cur. spaceWidth (drop k cur @ s) = 0) \<Longrightarrow> f \<in> set (Fields_from cur s) \<Longrightarrow>
   f \<noteq> [] \<and> noSpaceRune f"
proof (induction cur s rule: Fields_from.induct)
  case (1 cur s)
  have emit: "cur \<noteq> [] \<and> noSpaceRune cur" if "f = cur" "cur \<noteq> []"
  proof -
    have "spaceWidth (drop k cur) = 0" if "k < length cur" for k
    proof (rule ccontr)
      assume "spaceWidth (drop k cur) \<noteq> 0"
      then have "spaceWidth (drop k cur @ s) = spaceWidth (drop k cur)"
        by (intro spaceWidth_extend) simp
      with \<open>spaceWidth (drop k cur) \<noteq> 0\<close> "1.prems"(1) that show False by simp
    qed
    with that show ?thesis by (simp add: noSpaceRune_def)
  qed
  show ?case
  proof (cases s)
    case Nil
    with "1.prems"(2) have "f = cur \<and> cur \<noteq> []" by (simp add: Fields_from_Nil split: if_splits)
    with emit show ?thesis by simp
  next
    case (Cons c cs)
    show ?thesis
    proof (cases "spaceWidth s = 0")
      case True
      have inv: "\<forall>k < length (cur @ [c]). spaceWidth (drop k (cur @ [c]) @ cs) = 0"
      proof (intro allI impI)
        fix k assume k: "k < length (cur @ [c])"
        show "spaceWidth (drop k (cur @ [c]) @ cs) = 0"
        proof (cases "k < length cur")
          case True
          then show ?thesis using "1.prems"(1) Cons by simp
        next
          case False
          with k have "k = length cur" by simp
          then show ?thesis using \<open>spaceWidth s = 0\<close> Cons by simp
        qed
      qed
      have "f \<in> set (Fields_from (cur @ [c]) cs)"
        using "1.prems"(2) True Cons by (subst (asm) Fields_from.simps) simp
      with inv show ?thesis using "1.IH"(1)[OF Cons True] by blast
    next
      case False
      show ?thesis
      proof (cases "cur = []")
        case True
        have "f \<in> set (Fields_from [] (drop (spaceWidth s) s))"
          using "1.prems"(2) False True Cons by (subst (asm) Fields_from.simps) simp
        then show ?thesis using "1.IH"(2)[OF Cons False True] by simp
      next
        case notnil: False
        have "f = cur \<or> f \<in> set (Fields_from [] (drop (spaceWidth s) s))"
          using "1.prems"(2) False notnil Cons by (subst (asm) Fields_from.simps) auto
        then show ?thesis using "1.IH"(3)[OF Cons False notnil] emit notnil by auto
      qed
    qed
  qed
qed

lemma Fields_fields: "f \<in> set (Fields s) \<Longrightarrow> f \<noteq> [] \<and> noSpaceRune f"
  unfolding Fields_def by (rule Fields_from_fields) simp_all

lemma Fields_field: "f \<noteq> [] \<Longrightarrow> noSpaceRune f \<Longrightarrow> Fields f = [f]"
  by (simp add: Fields_def Fields_from_noSpaceRune)

lemma wrapWords_Fields:
  "list_all (\<lambda>w. w \<noteq> [] \<and> noSpaceRune w) ws \<Longrightarrow>
   Fields (wrapWords maxLen result currentLine ws) = Fields (result @ currentLine) @ ws"
proof (induction ws arbitrary: result currentLine)
  case Nil
  then show ?case by simp
next
  case (Cons word ws)
  then have w: "Fields word = [word]" and rest: "list_all (\<lambda>w. w \<noteq> [] \<and> noSpaceRune w) ws"
    by (simp_all add: Fields_field)
  show ?case
  proof (cases "int (length currentLine) + 1 + int (length word) > maxLen")
    case True
    have "Fields ((result @ currentLine) @ [NL] @ word) = Fields (result @ currentLine) @ Fields word"
      by (rule Fields_append) (simp_all add: asciiSpace_NL)
    with True w Cons.IH[OF rest, of "result @ currentLine @ [NL]" word] show ?thesis by simp
  next
    case False
    have "Fields ((result @ currentLine) @ '' '' @ word) = Fields (result @ currentLine) @ Fields word"
      by (rule Fields_append) (simp_all add: asciiSpace_SP)
    with False w Cons.IH[OF rest, of result "currentLine @ '' '' @ word"] show ?thesis by simp
  qed
qed

lemma ventilateByLineLength_Fields:
  "Fields (fst (ventilateByLineLength p maxLen)) = Fields p"
proof (cases "Fields p")
  case Nil
  then show ?thesis by (simp add: ventilateByLineLength_def Fields_Nil)
next
  case (Cons w ws)
  then have all: "list_all (\<lambda>w. w \<noteq> [] \<and> noSpaceRune w) (w # ws)"
    using Fields_fields[of _ p] by (simp add: list_all_iff)
  then have "Fields (wrapWords maxLen [] w ws) = Fields ([] @ w) @ ws"
    by (intro wrapWords_Fields) simp
  moreover have "Fields w = [w]" using all by (simp add: Fields_field)
  ultimately show ?thesis using Cons by (simp add: ventilateByLineLength_def)
qed

text \<open>The byte before a boundary is the punctuation sign or a closing wrapper.\<close>

definition isClosing :: "char \<Rightarrow> bool" where
  "isClosing c = (c = CHR ''.'' \<or> c = CHR ''!'' \<or> c = CHR ''?'' \<or> isWrapper c)"

lemma isClosing_facts:
  assumes "isClosing c"
  shows "\<not> IsSpace c" and "c \<noteq> NL" and "(of_char c :: nat) < 0x80"
  using assms by (auto simp: isClosing_def isWrapper_def IsSpace_def)

fun breaksOK :: "string \<Rightarrow> nat \<Rightarrow> nat list \<Rightarrow> bool" where
  "breaksOK p lb [] = True"
| "breaksOK p lb (b # bs) =
     (lb < b \<and> b \<le> length p \<and> isClosing (p ! (b - 1)) \<and> breaksOK p (skipSpace p b) bs)"

lemma scanStep_Boundary_closing:
  assumes "scanStep p abbr lb i = Boundary b r" and "i < length p" and "lb \<le> i"
  shows "lb < b \<and> b \<le> length p \<and> isClosing (p ! (b - 1)) \<and> r = skipSpace p b"
proof -
  have bnd: "i < b \<and> b \<le> length p \<and> lb \<le> b \<and> r = skipSpace p b"
    using assms(1,2) by (rule scanStep_Boundary)
  from assms(1,2) have "isClosing (p ! (b - 1))"
  proof (cases rule: scanStep_Boundary_cases)
    case (span e)
    then have "p ! e = CHR ''}''" using findMarkupEnd_close by blast
    with span show ?thesis by (simp add: isClosing_def isWrapper_def)
  next
    case punct
    show ?thesis
    proof (cases "i + 1 < skipWrappers p (i + 1)")
      case True
      then have "isWrapper (p ! (b - 1))" using punct(6) skipWrappers_before by blast
      then show ?thesis by (simp add: isClosing_def)
    next
      case False
      then have "b = i + 1" using punct(6) skipWrappers_ge[of "i + 1" p] by simp
      with punct(3) show ?thesis by (auto simp: isClosing_def)
    qed
  qed
  with bnd assms(3) show ?thesis by simp
qed

lemma scanBreaks_OK: "lb \<le> i \<Longrightarrow> breaksOK p lb (scanBreaks p abbr lb i)"
proof (induction p abbr lb i rule: scanBreaks.induct)
  case (1 p abbr lb i)
  show ?case
  proof (cases "i < length p")
    case False
    then show ?thesis by (simp add: scanBreaks.simps[of p abbr lb i])
  next
    case True
    show ?thesis
    proof (cases "scanStep p abbr lb i")
      case (Advance i')
      then have "lb \<le> i'" using scanStep_Advance[OF Advance True] "1.prems" by simp
      then have "breaksOK p lb (scanBreaks p abbr lb i')" by (rule "1.IH"(1)[OF True Advance])
      with Advance True show ?thesis by (simp add: scanBreaks.simps[of p abbr lb i])
    next
      case (Boundary b r)
      note c = scanStep_Boundary_closing[OF Boundary True "1.prems"]
      have "breaksOK p r (scanBreaks p abbr r r)" by (rule "1.IH"(2)[OF True Boundary]) simp
      with c Boundary True show ?thesis by (simp add: scanBreaks.simps[of p abbr lb i])
    next
      case (Abort e)
      with True show ?thesis by (simp add: scanBreaks.simps[of p abbr lb i])
    qed
  qed
qed

lemma slice_nonempty_last:
  assumes "a < b" "b \<le> length p"
  shows "slice p a b \<noteq> []" and "last (slice p a b) = p ! (b - 1)"
proof -
  have len: "length (slice p a b) = b - a" using assms by (simp add: slice_def)
  with assms show ne: "slice p a b \<noteq> []" by auto
  have "last (slice p a b) = slice p a b ! (b - a - 1)" using ne len by (simp add: last_conv_nth)
  also have "\<dots> = p ! (a + (b - a - 1))" using assms by (simp add: slice_def)
  finally show "last (slice p a b) = p ! (b - 1)" using assms by simp
qed

lemma HasSuffix_NL: "HasSuffix s [NL] \<longleftrightarrow> s \<noteq> [] \<and> last s = NL"
  by (cases s rule: rev_cases) (auto simp: HasSuffix_def)

lemma TrimSuffix_NL: "TrimSuffix s [NL] = (if s \<noteq> [] \<and> last s = NL then butlast s else s)"
  by (cases s rule: rev_cases) (auto simp: TrimSuffix_def HasSuffix_def)

lemma TrimSuffix_append:
  "y \<noteq> [] \<Longrightarrow> TrimSuffix (x @ y) [NL] = x @ TrimSuffix y [NL]"
  by (simp add: TrimSuffix_NL butlast_append)

text \<open>What a block of output looks like at its end: it is not empty and it does not end
  in a newline.\<close>

definition endsClean :: "string \<Rightarrow> bool" where
  "endsClean s = (s \<noteq> [] \<and> last s \<noteq> NL)"

lemma renderBreaks_end:
  "breaksOK p lb bs \<Longrightarrow> (bs = [] \<longrightarrow> lb < length p) \<Longrightarrow> p \<noteq> [] \<Longrightarrow> last p \<noteq> NL \<Longrightarrow>
   endsClean (TrimSuffix (renderBreaks p lb bs) [NL])"
proof (induction bs arbitrary: lb)
  case Nil
  then have "drop lb p \<noteq> []" "last (drop lb p) = last p" by simp_all
  with Nil show ?case by (simp add: endsClean_def TrimSuffix_NL)
next
  case (Cons b bs)
  let ?r = "skipSpace p b"
  let ?chunk = "slice p lb b"
  from Cons.prems(1) have b: "lb < b" "b \<le> length p" "isClosing (p ! (b - 1))"
    and ok: "breaksOK p ?r bs" by simp_all
  have chunk: "?chunk \<noteq> []" "last ?chunk \<noteq> NL"
    using slice_nonempty_last[OF b(1,2)] isClosing_facts(2)[OF b(3)] by simp_all
  show ?case
  proof (cases "bs = [] \<and> length p \<le> ?r")
    case True
    then have "renderBreaks p lb (b # bs) = ?chunk @ [NL]" by simp
    then have "TrimSuffix (renderBreaks p lb (b # bs)) [NL] = ?chunk" by (simp add: TrimSuffix_NL)
    with chunk show ?thesis by (simp add: endsClean_def)
  next
    case False
    then have "bs = [] \<longrightarrow> ?r < length p" by auto
    with ok Cons.prems(3,4) have ih: "endsClean (TrimSuffix (renderBreaks p ?r bs) [NL])"
      by (intro Cons.IH) simp_all
    then have ne: "renderBreaks p ?r bs \<noteq> []" by (auto simp: endsClean_def TrimSuffix_NL)
    have "TrimSuffix (renderBreaks p lb (b # bs)) [NL]
        = (?chunk @ [NL]) @ TrimSuffix (renderBreaks p ?r bs) [NL]"
      using TrimSuffix_append[OF ne, of "?chunk @ [NL]"] by simp
    with ih show ?thesis by (simp add: endsClean_def)
  qed
qed

lemma ventilateBySentence_end:
  assumes "ventilateBySentence p cfg = (out, None)" and "p \<noteq> []" and "last p \<noteq> NL"
  shows "endsClean out"
proof -
  let ?bs = "scanBreaks p (effectiveAbbreviations cfg) 0 0"
  have "out = TrimSuffix (renderBreaks p 0 ?bs) [NL]"
    using assms(1) by (rule ventilateBySentence_render)
  moreover have "breaksOK p 0 ?bs" by (rule scanBreaks_OK) simp
  moreover have "?bs = [] \<longrightarrow> 0 < length p" using assms(2) by simp
  ultimately show ?thesis using renderBreaks_end assms(2,3) by blast
qed

lemma noSpaceRune_last:
  assumes "w \<noteq> []" "noSpaceRune w"
  shows "last w \<noteq> NL"
proof
  assume nl: "last w = NL"
  have "drop (length w - 1) w = [last w]" using assms(1)
    by (metis append_butlast_last_id append_eq_conv_conj length_butlast)
  moreover have "spaceWidth (drop (length w - 1) w) = 0"
    using assms unfolding noSpaceRune_def by (simp add: Suc_leI)
  ultimately show False using nl by (simp add: spaceRune1_def)
qed

lemma wrapWords_end:
  "currentLine \<noteq> [] \<Longrightarrow> list_all (\<lambda>w. w \<noteq> []) ws \<Longrightarrow>
   wrapWords maxLen result currentLine ws \<noteq> [] \<and>
   last (wrapWords maxLen result currentLine ws) = last (last (currentLine # ws))"
proof (induction ws arbitrary: result currentLine)
  case Nil
  then show ?case by simp
next
  case (Cons word ws)
  then have w: "word \<noteq> []" and rest: "list_all (\<lambda>w. w \<noteq> []) ws" by simp_all
  show ?case
  proof (cases "int (length currentLine) + 1 + int (length word) > maxLen")
    case True
    with Cons.IH[OF w rest, of "result @ currentLine @ [NL]"] show ?thesis by simp
  next
    case False
    have "currentLine @ '' '' @ word \<noteq> []" by simp
    from Cons.IH[OF this rest, of result] False w show ?thesis by (cases ws) simp_all
  qed
qed

lemma ventilateByLineLength_end:
  assumes "Fields p \<noteq> []"
  shows "endsClean (fst (ventilateByLineLength p maxLen))"
proof -
  from assms obtain w ws where f: "Fields p = w # ws" by (cases "Fields p") auto
  have all: "\<And>x. x \<in> set (w # ws) \<Longrightarrow> x \<noteq> [] \<and> noSpaceRune x"
    using Fields_fields[of _ p] f by simp
  then have "w \<noteq> []" "list_all (\<lambda>w. w \<noteq> []) ws" by (simp_all add: list_all_iff)
  then have e: "wrapWords maxLen [] w ws \<noteq> [] \<and>
      last (wrapWords maxLen [] w ws) = last (last (w # ws))" by (rule wrapWords_end)
  have "last (w # ws) \<in> set (w # ws)" by (rule last_in_set) simp
  then have "last (last (w # ws)) \<noteq> NL" using all noSpaceRune_last by blast
  with e f show ?thesis by (simp add: ventilateByLineLength_def endsClean_def)
qed

lemma TrimLeft_Nil: "TrimLeft [] = []"
  by (subst TrimLeft.simps) simp

lemma TrimRight_Nil: "TrimRight [] = []"
  by (subst TrimRight.simps) (simp add: lastSpaceWidth_def)

lemma Fields_from_empty: "Fields_from cur s = [] \<Longrightarrow> cur = [] \<and> TrimLeft s = []"
proof (induction cur s rule: Fields_from.induct)
  case (1 cur s)
  show ?case
  proof (cases s)
    case Nil
    with "1.prems" show ?thesis by (simp add: Fields_from_Nil TrimLeft_Nil split: if_splits)
  next
    case (Cons c cs)
    show ?thesis
    proof (cases "spaceWidth s = 0")
      case True
      with "1.prems" Cons have "Fields_from (cur @ [c]) cs = []"
        by (subst (asm) Fields_from.simps) simp
      with "1.IH"(1)[OF Cons True] show ?thesis by simp
    next
      case False
      show ?thesis
      proof (cases "cur = []")
        case True
        with "1.prems" Cons False have "Fields_from [] (drop (spaceWidth s) s) = []"
          by (subst (asm) Fields_from.simps) simp
        with "1.IH"(2)[OF Cons False True] have "TrimLeft (drop (spaceWidth s) s) = []" by simp
        with False True show ?thesis by (subst TrimLeft.simps) simp
      next
        case notnil: False
        with "1.prems" Cons False show ?thesis by (subst (asm) Fields_from.simps) simp
      qed
    qed
  qed
qed

lemma TrimSpace_Fields: "TrimSpace l \<noteq> [] \<Longrightarrow> Fields l \<noteq> []"
proof
  assume a: "TrimSpace l \<noteq> []" "Fields l = []"
  then have "TrimLeft l = []" using Fields_from_empty[of "[]" l] by (simp add: Fields_def)
  with a(1) show False by (simp add: TrimSpace_def TrimRight_Nil)
qed

lemma TrimSpace_nonempty: "TrimSpace l \<noteq> [] \<Longrightarrow> l \<noteq> []"
  by (auto simp: TrimSpace_def TrimLeft_Nil TrimRight_Nil)

text \<open>A line of a block: not blank, and without a newline (it is a piece of
  \<open>strings.Split(..., "\n")\<close>).\<close>

definition blockLine :: "string \<Rightarrow> bool" where
  "blockLine l = (TrimSpace l \<noteq> [] \<and> NL \<notin> set l)"

lemma blockLine_end: "blockLine l \<Longrightarrow> endsClean l"
proof -
  assume a: "blockLine l"
  then have ne: "l \<noteq> []" using TrimSpace_nonempty by (simp add: blockLine_def)
  then have "last l \<in> set l" by simp
  with a have "last l \<noteq> NL" by (auto simp: blockLine_def)
  with ne show ?thesis by (simp add: endsClean_def)
qed

lemma Join_NL_end:
  "ls \<noteq> [] \<Longrightarrow> list_all blockLine ls \<Longrightarrow> endsClean (Join ls [NL])"
proof (induction ls)
  case Nil
  then show ?case by simp
next
  case (Cons x ls)
  show ?case
  proof (cases ls)
    case Nil
    with Cons.prems show ?thesis by (simp add: blockLine_end)
  next
    case (Cons y zs)
    with Cons.prems Cons.IH have "endsClean (Join (y # zs) [NL])" by simp
    with Cons show ?thesis by (simp add: endsClean_def)
  qed
qed

lemma joinLines_facts:
  "ls \<noteq> [] \<Longrightarrow> list_all blockLine ls \<Longrightarrow> endsClean (joinLines ls) \<and> Fields (joinLines ls) \<noteq> []"
proof (induction ls rule: joinLines.induct)
  case 1
  then show ?case by simp
next
  case (2 line)
  then show ?case by (simp add: blockLine_end blockLine_def TrimSpace_Fields)
next
  case (3 line nxt rest)
  then have ih: "endsClean (joinLines (nxt # rest))" by simp
  let ?sep = "if HasSuffix (TrimSpace line) '':'' then [NL] else '' ''"
  have sep: "?sep \<noteq> []" "list_all asciiSpace ?sep" by (simp_all add: asciiSpace_NL asciiSpace_SP)
  have "Fields (line @ ?sep @ joinLines (nxt # rest)) = Fields line @ Fields (joinLines (nxt # rest))"
    using sep by (rule Fields_append)
  moreover have "Fields line \<noteq> []" using "3.prems" by (simp add: blockLine_def TrimSpace_Fields)
  ultimately have "Fields (joinLines (line # nxt # rest)) \<noteq> []" by simp
  moreover have "endsClean (joinLines (line # nxt # rest))" using ih by (simp add: endsClean_def)
  ultimately show ?case by simp
qed

lemma ventilateParagraph_end:
  assumes "ventilateParagraph p cfg = (out, None)" and "endsClean p" and "Fields p \<noteq> []"
  shows "endsClean out"
proof (cases "SentenceBreak cfg")
  case True
  with assms(1) have "ventilateBySentence p cfg = (out, None)" by (simp add: ventilateParagraph_def)
  moreover from assms(2) have "p \<noteq> []" "last p \<noteq> NL" by (simp_all add: endsClean_def)
  ultimately show ?thesis by (rule ventilateBySentence_end)
next
  case False
  show ?thesis
  proof (cases "RespectMaxLineLength cfg \<and> MaxLineLength cfg > 0")
    case True
    with False assms(1) have "out = fst (ventilateByLineLength p (MaxLineLength cfg))"
      by (simp add: ventilateParagraph_def)
    with assms(3) show ?thesis by (simp add: ventilateByLineLength_end)
  next
    case nowrap: False
    with False assms(1) have "out = p" by (auto simp: ventilateParagraph_def)
    with assms(2) show ?thesis by simp
  qed
qed

lemma ventilateBlock_end:
  assumes "ventilateBlock uniDigits ls cfg = (out, None)" and "ls \<noteq> []" and "list_all blockLine ls"
  shows "endsClean out"
proof -
  from assms(2) obtain first rest where ls: "ls = first # rest" by (cases ls) auto
  show ?thesis
  proof (cases "isNonProseBlock uniDigits (TrimSpace first) \<or>
                HasPrefix (TrimSpace first) [BACKTICK, BACKTICK, BACKTICK]")
    case True
    with assms(1) ls have "out = Join ls [NL]" by (simp add: ventilateBlock_def)
    with assms(2,3) show ?thesis by (simp add: Join_NL_end)
  next
    case False
    with assms(1) ls have "ventilateParagraph (joinLines ls) cfg = (out, None)"
      by (simp add: ventilateBlock_def)
    moreover have "endsClean (joinLines ls)" "Fields (joinLines ls) \<noteq> []"
      using joinLines_facts[OF assms(2,3)] by simp_all
    ultimately show ?thesis by (rule ventilateParagraph_end)
  qed
qed

lemma Split_no_sep: "l \<in> set (Split s sep) \<Longrightarrow> sep \<notin> set l"
proof (induction s arbitrary: l)
  case Nil
  then show ?case by simp
next
  case (Cons c cs)
  show ?case
  proof (cases "c = sep")
    case True
    with Cons show ?thesis by auto
  next
    case False
    show ?thesis
    proof (cases "Split cs sep")
      case Nil
      with Cons.prems False show ?thesis by simp
    next
      case (Cons x xs)
      with Cons.prems False have "l = c # x \<or> l \<in> set xs" by simp
      moreover have "sep \<notin> set x" "\<And>y. y \<in> set xs \<Longrightarrow> sep \<notin> set y"
        using Cons.IH Cons by simp_all
      ultimately show ?thesis using False by auto
    qed
  qed
qed

lemma Join_end: "ls \<noteq> [] \<Longrightarrow> list_all endsClean ls \<Longrightarrow> endsClean (Join ls sep)"
proof (induction ls)
  case Nil
  then show ?case by simp
next
  case (Cons x ls)
  show ?case
  proof (cases ls)
    case Nil
    with Cons.prems show ?thesis by simp
  next
    case (Cons y zs)
    with Cons.prems Cons.IH have "endsClean (Join (y # zs) sep)" by simp
    with Cons show ?thesis by (simp add: endsClean_def)
  qed
qed

definition blocksInv :: "string list \<times> string list \<Rightarrow> bool" where
  "blocksInv st = (list_all endsClean (fst st) \<and> list_all blockLine (snd st))"

lemma processBlock_inv:
  assumes "processBlock uniDigits cfg st = Inr st'" and "blocksInv st"
  shows "blocksInv st'"
proof -
  obtain pbs bb where st: "st = (pbs, bb)" by (cases st)
  show ?thesis
  proof (cases "bb = []")
    case True
    with assms st show ?thesis by (simp add: processBlock_def)
  next
    case False
    with assms(1) st obtain processed where
      v: "ventilateBlock uniDigits bb cfg = (processed, None)" and st': "st' = (pbs @ [processed], [])"
      by (auto simp: processBlock_def split: prod.splits option.splits)
    from v False have "endsClean processed"
      using assms(2) st by (intro ventilateBlock_end[of uniDigits bb cfg]) (simp_all add: blocksInv_def)
    with assms(2) st st' show ?thesis by (simp add: blocksInv_def)
  qed
qed

lemma linesLoop_inv:
  "linesLoop uniDigits cfg lines st = Inr st' \<Longrightarrow> blocksInv st \<Longrightarrow>
   list_all (\<lambda>l. NL \<notin> set l) lines \<Longrightarrow> blocksInv st'"
proof (induction lines arbitrary: st)
  case Nil
  then show ?case by simp
next
  case (Cons line rest)
  show ?case
  proof (cases "TrimSpace line = []")
    case True
    then obtain st1 where p: "processBlock uniDigits cfg st = Inr st1"
      and l: "linesLoop uniDigits cfg rest st1 = Inr st'"
      using Cons.prems(1) by (auto split: sum.splits)
    from p Cons.prems(2) have "blocksInv st1" by (rule processBlock_inv)
    with l Cons.prems(3) show ?thesis using Cons.IH by simp
  next
    case False
    with Cons.prems(1) have l: "linesLoop uniDigits cfg rest (fst st, snd st @ [line]) = Inr st'"
      by simp
    have "blocksInv (fst st, snd st @ [line])"
      using Cons.prems(2,3) False by (simp add: blocksInv_def blockLine_def)
    with l Cons.prems(3) show ?thesis using Cons.IH by simp
  qed
qed

lemma Ventilate_output_end:
  assumes "Ventilate uniDigits input cfg = (out, None)"
  shows "\<exists>body. \<not> HasSuffix body [NL] \<and>
           out = (if HasSuffix input [NL] \<and> input \<noteq> [] then body @ [NL] else body)"
proof (cases "input = []")
  case True
  with assms have "out = []" by (simp add: Ventilate_def)
  with True show ?thesis by (auto simp: HasSuffix_NL)
next
  case False
  have crlf: "(HasSuffix input [NL] \<or> HasSuffix input [CR, NL]) = HasSuffix input [NL]"
    by (auto simp: HasSuffix_def suffix_def)
  from assms False obtain st st2 where
    l: "linesLoop uniDigits cfg (Split (ReplaceAll_CRLF input) NL) ([], []) = Inr st"
    and p: "processBlock uniDigits cfg st = Inr st2"
    and o: "out = (if HasSuffix input [NL] \<and> \<not> HasSuffix (Join (fst st2) [NL, NL]) [NL]
                   then Join (fst st2) [NL, NL] @ [NL] else Join (fst st2) [NL, NL])"
    by (auto simp: Ventilate_def Let_def crlf split: option.splits sum.splits prod.splits if_splits)
  have "blocksInv ([], [])" by (simp add: blocksInv_def)
  moreover have "list_all (\<lambda>l. NL \<notin> set l) (Split (ReplaceAll_CRLF input) NL)"
    using Split_no_sep by (auto simp: list_all_iff)
  ultimately have "blocksInv st" using l linesLoop_inv by blast
  with p have inv: "blocksInv st2" by (rule processBlock_inv)
  have clean: "\<not> HasSuffix (Join (fst st2) [NL, NL]) [NL]"
  proof (cases "fst st2 = []")
    case True
    then show ?thesis by (simp add: HasSuffix_NL)
  next
    case False
    then have "endsClean (Join (fst st2) [NL, NL])"
      using inv by (intro Join_end) (simp_all add: blocksInv_def)
    then show ?thesis by (simp add: HasSuffix_NL endsClean_def)
  qed
  with o False show ?thesis by auto
qed

text \<open>Two conditions on a paragraph under which sentence ventilation keeps the words.
  \<open>braceThenUpper\<close>: some closing brace is directly followed by an upper-case byte (there
  the scanner may put a newline into the middle of a word). \<open>strayLatinSpace\<close>: a byte
  that \<open>unicode.IsSpace\<close> takes for U+0085 or U+00A0 directly follows an ASCII byte, which
  no valid UTF-8 text has (there the scanner sees white space where \<open>strings.Fields\<close>
  sees none).\<close>

definition braceThenUpper :: "string \<Rightarrow> bool" where
  "braceThenUpper q =
     list_ex (\<lambda>k. q ! k = CHR ''}'' \<and> IsUpper (q ! Suc k)) [0..<length q - 1]"

definition strayLatinSpace :: "string \<Rightarrow> bool" where
  "strayLatinSpace q =
     list_ex (\<lambda>k. (of_char (q ! k) :: nat) < 0x80 \<and> IsSpace (q ! Suc k) \<and>
                   \<not> (of_char (q ! Suc k) :: nat) < 0x80) [0..<length q - 1]"

lemma braceThenUpperD:
  "\<not> braceThenUpper q \<Longrightarrow> Suc k < length q \<Longrightarrow> q ! k = CHR ''}'' \<Longrightarrow> \<not> IsUpper (q ! Suc k)"
  by (auto simp: braceThenUpper_def list_ex_iff)

lemma strayLatinSpaceD:
  "\<not> strayLatinSpace q \<Longrightarrow> Suc k < length q \<Longrightarrow> (of_char (q ! k) :: nat) < 0x80 \<Longrightarrow>
   IsSpace (q ! Suc k) \<Longrightarrow> (of_char (q ! Suc k) :: nat) < 0x80"
  by (auto simp: strayLatinSpace_def list_ex_iff)

lemma skipSpace_advances: "b < length p \<Longrightarrow> IsSpace (p ! b) \<Longrightarrow> b < skipSpace p b"
proof (rule ccontr)
  assume a: "b < length p" "IsSpace (p ! b)" "\<not> b < skipSpace p b"
  then have "skipSpace p b = b" using skipSpace_ge[of b p] by simp
  with a(1) skipSpace_stop[of p b] a(2) show False by simp
qed

lemma scanBreaks_separated:
  "\<not> braceThenUpper p \<Longrightarrow>
   list_all (\<lambda>b. b < skipSpace p b \<or> length p \<le> b) (scanBreaks p abbr lb i)"
proof (induction p abbr lb i rule: scanBreaks.induct)
  case (1 p abbr lb i)
  show ?case
  proof (cases "i < length p")
    case False
    then show ?thesis by (simp add: scanBreaks.simps[of p abbr lb i])
  next
    case True
    show ?thesis
    proof (cases "scanStep p abbr lb i")
      case (Advance i')
      with True "1.IH"(1)[OF True Advance "1.prems"] show ?thesis
        by (simp add: scanBreaks.simps[of p abbr lb i])
    next
      case (Boundary b r)
      from Boundary True have "b < skipSpace p b \<or> length p \<le> b"
      proof (cases rule: scanStep_Boundary_cases)
        case (span e)
        show ?thesis
        proof (rule ccontr)
          assume n: "\<not> ?thesis"
          then have rb: "skipSpace p b = b" "b < length p" using skipSpace_ge[of b p] by simp_all
          with span have up: "IsUpper (p ! b)" by auto
          have "p ! e = CHR ''}''" using span(3) findMarkupEnd_close by blast
          with "1.prems" rb span(4) have "\<not> IsUpper (p ! Suc e)"
            by (intro braceThenUpperD) simp_all
          with up span(4) show False by simp
        qed
      next
        case punct
        then show ?thesis using skipSpace_advances[of b p] by auto
      qed
      with Boundary True "1.IH"(2)[OF True Boundary "1.prems"] show ?thesis
        by (simp add: scanBreaks.simps[of p abbr lb i])
    next
      case (Abort e)
      with True show ?thesis by (simp add: scanBreaks.simps[of p abbr lb i])
    qed
  qed
qed

lemma space_run_ascii:
  assumes "\<not> strayLatinSpace p" and "0 < b" and "(of_char (p ! (b - 1)) :: nat) < 0x80"
  shows "b \<le> k \<Longrightarrow> k < skipSpace p b \<Longrightarrow> asciiSpace (p ! k)"
proof (induction k)
  case 0
  with assms(2) show ?case by simp
next
  case (Suc k)
  have len: "Suc k < length p"
  proof -
    have "skipSpace p b \<le> length p \<or> skipSpace p b = b"
      using skipSpace_le[of b p] by (cases "b \<le> length p") (auto simp: skipSpace_def)
    with Suc.prems show ?thesis by auto
  qed
  have sp: "IsSpace (p ! Suc k)" using Suc.prems by (rule skipSpace_chars)
  have "(of_char (p ! k) :: nat) < 0x80"
  proof (cases "b \<le> k")
    case True
    with Suc have "asciiSpace (p ! k)" by simp
    then show ?thesis by (rule asciiSpace_ascii)
  next
    case False
    with Suc.prems have "k = b - 1" by simp
    with assms(3) show ?thesis by simp
  qed
  then have "(of_char (p ! Suc k) :: nat) < 0x80"
    using assms(1) len sp by (intro strayLatinSpaceD) simp_all
  with sp show ?case by (rule IsSpace_ascii)
qed

lemma slice_nth: "a + n < b \<Longrightarrow> b \<le> length p \<Longrightarrow> slice p a b ! n = p ! (a + n)"
  by (simp add: slice_def)

lemma slice_length: "b \<le> length p \<Longrightarrow> length (slice p a b) = b - a"
  by (simp add: slice_def)

lemma drop_slice: "a \<le> b \<Longrightarrow> drop a p = slice p a b @ drop b p"
proof -
  assume "a \<le> b"
  then have "drop b p = drop (b - a) (drop a p)" by simp
  then show ?thesis unfolding slice_def by (metis append_take_drop_id)
qed

lemma renderBreaks_Fields:
  "breaksOK p lb bs \<Longrightarrow> list_all (\<lambda>b. b < skipSpace p b \<or> length p \<le> b) bs \<Longrightarrow>
   \<not> strayLatinSpace p \<Longrightarrow> Fields (renderBreaks p lb bs) = Fields (drop lb p)"
proof (induction bs arbitrary: lb)
  case Nil
  then show ?case by simp
next
  case (Cons b bs)
  let ?r = "skipSpace p b"
  let ?chunk = "slice p lb b"
  from Cons.prems(1) have b: "lb < b" "b \<le> length p" "isClosing (p ! (b - 1))"
    and ok: "breaksOK p ?r bs" by simp_all
  from Cons.prems(2) have sep: "b < ?r \<or> length p \<le> b"
    and rest: "list_all (\<lambda>b. b < skipSpace p b \<or> length p \<le> b) bs" by simp_all
  have split: "drop lb p = ?chunk @ drop b p" using b(1) by (intro drop_slice) simp
  show ?case
  proof (cases "b < ?r")
    case True
    let ?ws = "slice p b ?r"
    have rle: "?r \<le> length p" using b(2) by (rule skipSpace_le)
    have "length ?ws = ?r - b" using rle by (rule slice_length)
    then have ne: "?ws \<noteq> []" using True by auto
    have "asciiSpace (?ws ! n)" if "n < length ?ws" for n
    proof -
      from that \<open>length ?ws = ?r - b\<close> have n: "b + n < ?r" by simp
      then have "?ws ! n = p ! (b + n)" using rle by (rule slice_nth)
      moreover have "asciiSpace (p ! (b + n))"
        using Cons.prems(3) _ isClosing_facts(3)[OF b(3)] _ n
        by (rule space_run_ascii) (use b(1) in simp_all)
      ultimately show ?thesis by simp
    qed
    then have all: "list_all asciiSpace ?ws" by (simp add: list_all_length)
    have "drop b p = ?ws @ drop ?r p" using True by (intro drop_slice) simp
    with split have "Fields (drop lb p) = Fields (?chunk @ ?ws @ drop ?r p)" by simp
    also have "\<dots> = Fields ?chunk @ Fields (drop ?r p)" using ne all by (rule Fields_append)
    finally have lhs: "Fields (drop lb p) = Fields ?chunk @ Fields (drop ?r p)" .
    have "Fields (?chunk @ [NL] @ renderBreaks p ?r bs) = Fields ?chunk @ Fields (renderBreaks p ?r bs)"
      by (rule Fields_append) (simp_all add: asciiSpace_NL)
    also have "Fields (renderBreaks p ?r bs) = Fields (drop ?r p)"
      using ok rest Cons.prems(3) by (rule Cons.IH)
    finally show ?thesis using lhs by simp
  next
    case False
    with sep b(2) have bl: "b = length p" by simp
    then have r: "?r = length p" using skipSpace_le[of b p] skipSpace_ge[of b p] by simp
    have "bs = []"
    proof (cases bs)
      case Nil
      then show ?thesis .
    next
      case (Cons b' bs')
      with ok r have "length p < b'" "b' \<le> length p" by simp_all
      then have False by linarith
      then show ?thesis ..
    qed
    then have "renderBreaks p lb (b # bs) = ?chunk @ [NL]" using r by simp
    moreover have "drop lb p = ?chunk" using split bl by simp
    moreover have "Fields (?chunk @ [NL]) = Fields ?chunk"
      by (rule Fields_append_spaces) (simp add: asciiSpace_NL)
    ultimately show ?thesis by simp
  qed
qed

lemma ventilateBySentence_Fields:
  assumes "ventilateBySentence q cfg = (out, None)"
    and "\<not> braceThenUpper q" and "\<not> strayLatinSpace q"
  shows "Fields out = Fields q"
proof -
  let ?bs = "scanBreaks q (effectiveAbbreviations cfg) 0 0"
  have "out = TrimSuffix (renderBreaks q 0 ?bs) [NL]"
    using assms(1) by (rule ventilateBySentence_render)
  then have "Fields out = Fields (renderBreaks q 0 ?bs)" by (simp add: Fields_TrimSuffix_NL)
  also have "\<dots> = Fields (drop 0 q)"
  proof (rule renderBreaks_Fields)
    show "breaksOK q 0 ?bs" by (rule scanBreaks_OK) simp
    show "list_all (\<lambda>b. b < skipSpace q b \<or> length q \<le> b) ?bs"
      using assms(2) by (rule scanBreaks_separated)
    show "\<not> strayLatinSpace q" by (rule assms(3))
  qed
  finally show ?thesis by simp
qed

section \<open>Spans under the sentence scanner\<close>

text \<open>Two matched spans are nested or disjoint.\<close>

lemma findMarkupEnd_loop_mono:
  "1 \<le> j \<Longrightarrow> j < k \<Longrightarrow> findMarkupEnd_loop cs k idx = Some ek \<Longrightarrow>
   findMarkupEnd_loop cs j idx = Some ej \<Longrightarrow> ej < ek"
proof (induction cs arbitrary: j k idx)
  case Nil
  then show ?case by simp
next
  case (Cons c cs)
  show ?case
  proof (cases "c = CHR ''}'' \<and> j - 1 = 0")
    case True
    with Cons.prems have "ej = idx" by simp
    moreover from True Cons.prems have "findMarkupEnd_loop cs (k - 1) (Suc idx) = Some ek"
      by (simp split: if_splits)
    then have "Suc idx \<le> ek" using findMarkupEnd_loop_bounds by blast
    ultimately show ?thesis by simp
  next
    case False
    show ?thesis
    proof (cases "c = CHR ''{''")
      case True
      with Cons.prems Cons.IH[of "j + 1" "k + 1" "Suc idx"] show ?thesis by simp
    next
      case nopen: False
      show ?thesis
      proof (cases "c = CHR ''}''")
        case True
        with False have j: "j - 1 \<noteq> 0" by simp
        with Cons.prems(1,2) have k: "k - 1 \<noteq> 0" by simp
        from True j k Cons.prems Cons.IH[of "j - 1" "k - 1" "Suc idx"] show ?thesis by simp
      next
        case False
        with nopen Cons.prems Cons.IH[of j k "Suc idx"] show ?thesis by simp
      qed
    qed
  qed
qed

lemma findMarkupEnd_loop_reach:
  "1 \<le> k \<Longrightarrow> findMarkupEnd_loop cs k idx = Some e \<Longrightarrow> idx \<le> s \<Longrightarrow> s < e \<Longrightarrow>
   \<exists>l\<ge>1. findMarkupEnd_loop (drop (s - idx) cs) l s = Some e"
proof (induction cs arbitrary: k idx)
  case Nil
  then show ?case by simp
next
  case (Cons c cs)
  show ?case
  proof (cases "idx = s")
    case True
    with Cons.prems have "1 \<le> k \<and> findMarkupEnd_loop (drop (s - idx) (c # cs)) k s = Some e"
      by simp
    then show ?thesis by blast
  next
    case False
    with Cons.prems have lt: "Suc idx \<le> s" by simp
    then have d: "drop (s - idx) (c # cs) = drop (s - Suc idx) cs"
      by (simp add: Suc_diff_Suc drop_Cons')
    have "\<exists>k'\<ge>1. findMarkupEnd_loop cs k' (Suc idx) = Some e"
    proof (cases "c = CHR ''{''")
      case True
      with Cons.prems have "findMarkupEnd_loop cs (k + 1) (Suc idx) = Some e" by simp
      moreover have "1 \<le> k + 1" using Cons.prems(1) by simp
      ultimately show ?thesis by blast
    next
      case nopen: False
      show ?thesis
      proof (cases "c = CHR ''}''")
        case True
        show ?thesis
        proof (cases "k - 1 = 0")
          case z: True
          with True Cons.prems have "e = idx" by simp
          with Cons.prems show ?thesis by simp
        next
          case nz: False
          with True Cons.prems have "findMarkupEnd_loop cs (k - 1) (Suc idx) = Some e" by simp
          moreover have "1 \<le> k - 1" using Cons.prems(1) nz by simp
          ultimately show ?thesis by blast
        qed
      next
        case False
        with nopen Cons.prems show ?thesis by auto
      qed
    qed
    then obtain k' where "1 \<le> k'" "findMarkupEnd_loop cs k' (Suc idx) = Some e" by blast
    from Cons.IH[OF this lt Cons.prems(4)] show ?thesis unfolding d .
  qed
qed

lemma findMarkupEnd_laminar:
  assumes "findMarkupEnd p i = Some ei" and "i < s" and "s < length p"
    and "p ! s = CHR ''{''" and "findMarkupEnd p s = Some e"
  shows "ei < s \<or> e < ei"
proof (cases "ei < s")
  case True
  then show ?thesis by simp
next
  case False
  have "p ! ei = CHR ''}''" using assms(1) by (rule findMarkupEnd_close)
  with assms(4) have "ei \<noteq> s" by auto
  with False have lt: "s < ei" by simp
  have "\<exists>l\<ge>1. findMarkupEnd_loop (drop (s - Suc i) (drop (Suc i) p)) l s = Some ei"
    using assms(1,2) lt unfolding findMarkupEnd_def
    by (intro findMarkupEnd_loop_reach[where k = 1]) simp_all
  then obtain l where l: "1 \<le> l" "findMarkupEnd_loop (drop (s - Suc i) (drop (Suc i) p)) l s = Some ei"
    by blast
  have "drop (s - Suc i) (drop (Suc i) p) = drop s p" using assms(2) by simp
  also have "\<dots> = CHR ''{'' # drop (Suc s) p"
    using assms(3,4) by (simp add: Cons_nth_drop_Suc[symmetric])
  finally have "findMarkupEnd_loop (drop (Suc s) p) (l + 1) (Suc s) = Some ei"
    using l(2) by simp
  moreover have "findMarkupEnd_loop (drop (Suc s) p) 1 (Suc s) = Some e"
    using assms(5) by (simp add: findMarkupEnd_def)
  moreover have "(1::int) < l + 1" using l(1) by simp
  ultimately have "e < ei" using findMarkupEnd_loop_mono[of 1 "l + 1"] by blast
  then show ?thesis by simp
qed

lemma IsSpace_brace: "\<not> IsSpace (CHR ''{'')"
  by (simp add: IsSpace_def)

lemma isWrapper_brace: "\<not> isWrapper (CHR ''{'')"
  by (simp add: isWrapper_def)

lemma skipSpace_stays:
  assumes "b \<le> s" and "s < length p" and "\<not> IsSpace (p ! s)"
  shows "skipSpace p b \<le> s"
proof (rule ccontr)
  assume "\<not> ?thesis"
  then have "s < skipSpace p b" by simp
  with assms(1) have "IsSpace (p ! s)" using skipSpace_chars[of b s p] by simp
  with assms(3) show False by simp
qed

lemma skipWrappers_stays:
  assumes "b \<le> s" and "s < length p" and "\<not> isWrapper (p ! s)"
  shows "skipWrappers p b \<le> s"
proof (rule ccontr)
  assume "\<not> ?thesis"
  then have "s < skipWrappers p b" by simp
  with assms(1) have "isWrapper (p ! s)" using skipWrappers_chars[of b s p] by simp
  with assms(3) show False by simp
qed

text \<open>A span that opens at \<open>s\<close> and closes at \<open>e\<close>: the cursor of the sentence scanner is
  never behind the opening brace and before or on the closing one, and neither is a
  boundary or the place where the scanner resumes after a boundary.\<close>

lemma scanStep_span:
  assumes sp: "s < length p" "p ! s = CHR ''{''" "findMarkupEnd p s = Some e"
    and i: "i < length p" "i \<le> s \<or> e < i"
  shows "case scanStep p abbr lb i of
           Advance i' \<Rightarrow> i' \<le> s \<or> e < i'
         | Boundary b r \<Rightarrow> (b \<le> s \<or> e < b) \<and> r = skipSpace p b \<and> (r \<le> s \<or> e < r)
         | Abort err \<Rightarrow> True"
proof -
  have ns: "\<not> IsSpace (p ! s)" and nw: "\<not> isWrapper (p ! s)"
    using sp(2) IsSpace_brace isWrapper_brace by simp_all
  have resume: "skipSpace p b \<le> s \<or> e < skipSpace p b" if "b \<le> s \<or> e < b" for b
  proof (cases "b \<le> s")
    case True
    then show ?thesis using skipSpace_stays[OF _ sp(1) ns] by simp
  next
    case False
    with that have "e < b" by simp
    then show ?thesis using skipSpace_ge[of b p] by simp
  qed
  have over: "ei + 1 \<le> s \<or> e < ei + 1" if "findMarkupEnd p i = Some ei" for ei
  proof (cases "i = s")
    case True
    with that sp(3) show ?thesis by simp
  next
    case False
    show ?thesis
    proof (cases "i < s")
      case True
      from findMarkupEnd_laminar[OF that True sp] show ?thesis by auto
    next
      case False
      with \<open>i \<noteq> s\<close> i(2) have "e < i" by simp
      moreover have "i < ei" using that findMarkupEnd_bounds by blast
      ultimately show ?thesis by simp
    qed
  qed
  show ?thesis
  proof (cases "scanStep p abbr lb i")
    case (Advance i')
    from Advance i(1) have "i' \<le> s \<or> e < i'"
    proof (cases rule: scanStep_Advance_cases)
      case ellipsis
      then have c: "p ! i = CHR ''.'' \<and> p ! (i + 1) = CHR ''.'' \<and> p ! (i + 2) = CHR ''.''"
        using ellipsis_chars by blast
      show ?thesis
      proof (rule ccontr)
        assume "\<not> ?thesis"
        with ellipsis i(2) have "s = i \<or> s = i + 1 \<or> s = i + 2" by auto
        with c sp(2) show False by auto
      qed
    next
      case (span ei)
      with over[of ei] show ?thesis by simp
    next
      case char
      then have "i \<noteq> s" using sp(2) by auto
      with char i(2) show ?thesis by auto
    qed
    with Advance show ?thesis by simp
  next
    case (Boundary b r)
    from Boundary i(1) have "(b \<le> s \<or> e < b) \<and> r = skipSpace p b"
    proof (cases rule: scanStep_Boundary_cases)
      case (span ei)
      with over[of ei] show ?thesis by simp
    next
      case punct
      have "i \<noteq> s" using punct(2) sp(2) by auto
      show ?thesis
      proof (cases "i < s")
        case True
        then have "skipWrappers p (i + 1) \<le> s" using skipWrappers_stays[OF _ sp(1) nw] by simp
        with punct show ?thesis by simp
      next
        case False
        with \<open>i \<noteq> s\<close> i(2) have "e < i" by simp
        then have "e < skipWrappers p (i + 1)" using skipWrappers_ge[of "i + 1" p] by simp
        with punct show ?thesis by simp
      qed
    qed
    with Boundary resume[of b] show ?thesis by simp
  next
    case (Abort err)
    then show ?thesis by simp
  qed
qed

lemma scanBreaks_span:
  "s < length p \<Longrightarrow> p ! s = CHR ''{'' \<Longrightarrow> findMarkupEnd p s = Some e \<Longrightarrow>
   i \<le> s \<or> e < i \<Longrightarrow> b \<in> set (scanBreaks p abbr lb i) \<Longrightarrow>
   (b \<le> s \<and> skipSpace p b \<le> s) \<or> e < b"
proof (induction p abbr lb i rule: scanBreaks.induct)
  case (1 p abbr lb i)
  note sp = "1.prems"(1-3)
  show ?case
  proof (cases "i < length p")
    case False
    with "1.prems" show ?thesis by (simp add: scanBreaks.simps[of p abbr lb i])
  next
    case True
    note step = scanStep_span[OF sp True "1.prems"(4), of abbr lb]
    show ?thesis
    proof (cases "scanStep p abbr lb i")
      case (Advance i')
      with step have "i' \<le> s \<or> e < i'" by simp
      moreover have "b \<in> set (scanBreaks p abbr lb i')"
        using "1.prems"(5) Advance True by (simp add: scanBreaks.simps[of p abbr lb i])
      ultimately show ?thesis using "1.IH"(1)[OF True Advance sp] by blast
    next
      case (Boundary b' r)
      with step have s: "b' \<le> s \<or> e < b'" "r = skipSpace p b'" "r \<le> s \<or> e < r"
        by auto
      have "b = b' \<or> b \<in> set (scanBreaks p abbr r r)"
        using "1.prems"(5) Boundary True by (simp add: scanBreaks.simps[of p abbr lb i])
      then show ?thesis
      proof
        assume "b = b'"
        show ?thesis
        proof (cases "e < b")
          case True
          then show ?thesis by simp
        next
          case False
          with s(1) \<open>b = b'\<close> have "b \<le> s" by simp
          moreover have "\<not> IsSpace (p ! s)" using sp(2) IsSpace_brace by simp
          ultimately show ?thesis using skipSpace_stays[OF _ sp(1)] by simp
        qed
      next
        assume "b \<in> set (scanBreaks p abbr r r)"
        then show ?thesis using s(3) "1.IH"(2)[OF True Boundary sp] by blast
      qed
    next
      case (Abort err)
      with "1.prems"(5) True show ?thesis by (simp add: scanBreaks.simps[of p abbr lb i])
    qed
  qed
qed

lemma sublist_app_right:
  assumes "sublist xs ys"
  shows "sublist xs (ys @ zs)"
proof -
  from assms obtain a b where "ys = a @ xs @ b" unfolding sublist_def by blast
  then have "ys @ zs = a @ xs @ (b @ zs)" by simp
  then show ?thesis unfolding sublist_def by blast
qed

lemma sublist_app_left:
  assumes "sublist xs ys"
  shows "sublist xs (zs @ ys)"
proof -
  from assms obtain a b where "ys = a @ xs @ b" unfolding sublist_def by blast
  then have "zs @ ys = (zs @ a) @ xs @ b" by simp
  then show ?thesis unfolding sublist_def by blast
qed

lemma sublist_slice:
  assumes "a \<le> s" and "Suc e \<le> b" and "s \<le> e"
  shows "sublist (slice p s (Suc e)) (slice p a b)"
proof -
  have "slice p a b = slice p a s @ slice p s b" using assms by (intro slice_append) simp_all
  also have "slice p s b = slice p s (Suc e) @ slice p (Suc e) b"
    using assms by (intro slice_append) simp_all
  finally show ?thesis unfolding sublist_def by blast
qed

lemma sublist_drop:
  assumes "a \<le> s"
  shows "sublist (slice p s (Suc e)) (drop a p)"
proof -
  have "drop a p = slice p a s @ drop s p" using assms by (rule drop_slice)
  also have "drop s p = slice p s (Suc e) @ drop (Suc e - s) (drop s p)"
    by (simp only: slice_def append_take_drop_id)
  finally show ?thesis unfolding sublist_def by blast
qed

lemma renderBreaks_span:
  "lb \<le> s \<Longrightarrow> s \<le> e \<Longrightarrow> \<forall>b\<in>set bs. (b \<le> s \<and> skipSpace p b \<le> s) \<or> e < b \<Longrightarrow>
   sublist (slice p s (Suc e)) (renderBreaks p lb bs)"
proof (induction bs arbitrary: lb)
  case Nil
  then show ?case by (simp add: sublist_drop)
next
  case (Cons b bs)
  show ?case
  proof (cases "e < b")
    case True
    then have "sublist (slice p s (Suc e)) (slice p lb b)"
      using Cons.prems by (intro sublist_slice) simp_all
    then have "sublist (slice p s (Suc e))
        (slice p lb b @ ([NL] @ renderBreaks p (skipSpace p b) bs))"
      by (rule sublist_app_right)
    then show ?thesis by simp
  next
    case False
    with Cons.prems have "skipSpace p b \<le> s" by auto
    then have "sublist (slice p s (Suc e)) (renderBreaks p (skipSpace p b) bs)"
      using Cons.prems by (intro Cons.IH) simp_all
    then have "sublist (slice p s (Suc e)) ((slice p lb b @ [NL]) @ renderBreaks p (skipSpace p b) bs)"
      by (rule sublist_app_left)
    then show ?thesis by simp
  qed
qed

lemma sublist_snoc:
  assumes "sublist xs (ys @ [c])" and "xs \<noteq> []" and "last xs \<noteq> c"
  shows "sublist xs ys"
proof -
  from assms(1) obtain a b where ab: "ys @ [c] = a @ xs @ b" unfolding sublist_def by blast
  show ?thesis
  proof (cases b rule: rev_cases)
    case Nil
    with ab have "last (ys @ [c]) = last (a @ xs)" by simp
    with assms(2,3) show ?thesis by simp
  next
    case (snoc b' d)
    with ab have "ys @ [c] = (a @ xs @ b') @ [d]" by simp
    then have "ys = a @ xs @ b'" by (simp only: append1_eq_conv)
    then show ?thesis unfolding sublist_def by blast
  qed
qed

text \<open>
  The sentence scanner treats a matched span as one unit: no boundary is placed behind
  the opening brace and before or on the closing one, the white space that a boundary
  drops does not reach into the span, and so the span stands in the output as it stood in
  the paragraph. (The line-length wrapper gives no such guarantee.)
\<close>

lemma ventilateBySentence_span:
  assumes "ventilateBySentence p cfg = (out, None)"
    and "s < length p" and "p ! s = CHR ''{''" and "findMarkupEnd p s = Some e"
  shows "sublist (slice p s (Suc e)) out"
    and "\<forall>b\<in>set (scanBreaks p (effectiveAbbreviations cfg) 0 0).
           (b \<le> s \<and> skipSpace p b \<le> s) \<or> e < b"
proof -
  let ?bs = "scanBreaks p (effectiveAbbreviations cfg) 0 0"
  show br: "\<forall>b\<in>set ?bs. (b \<le> s \<and> skipSpace p b \<le> s) \<or> e < b"
    using scanBreaks_span[OF assms(2-4), of 0] by blast
  have b: "s < e \<and> e < length p" using assms(4) by (rule findMarkupEnd_bounds)
  have sub: "sublist (slice p s (Suc e)) (renderBreaks p 0 ?bs)"
    using br b by (intro renderBreaks_span) simp_all
  have out: "out = TrimSuffix (renderBreaks p 0 ?bs) [NL]"
    using assms(1) by (rule ventilateBySentence_render)
  have sl: "slice p s (Suc e) = slice p s e @ [p ! e]"
    using b slice_append[of s e "Suc e" p] by (simp add: slice_single)
  have "p ! e = CHR ''}''" using assms(4) by (rule findMarkupEnd_close)
  with sl have ne: "slice p s (Suc e) \<noteq> []" and la: "last (slice p s (Suc e)) \<noteq> NL" by simp_all
  show "sublist (slice p s (Suc e)) out"
  proof (cases "renderBreaks p 0 ?bs \<noteq> [] \<and> last (renderBreaks p 0 ?bs) = NL")
    case False
    with out sub show ?thesis by (simp add: TrimSuffix_NL)
  next
    case True
    then have "renderBreaks p 0 ?bs = butlast (renderBreaks p 0 ?bs) @ [NL]"
      by (metis append_butlast_last_id)
    with sub have "sublist (slice p s (Suc e)) (butlast (renderBreaks p 0 ?bs) @ [NL])" by simp
    then have "sublist (slice p s (Suc e)) (butlast (renderBreaks p 0 ?bs))"
      using ne la by (rule sublist_snoc)
    with out True show ?thesis by (simp add: TrimSuffix_NL)
  qed
qed

section \<open>The configuration field \<open>ParagraphSpacing\<close>\<close>

text \<open>No function of the library reads \<open>ParagraphSpacing\<close>: \<open>Ventilate\<close> returns the same
  for every value of the field.\<close>

lemma ventilateParagraph_spacing:
  "ventilateParagraph p (cfg\<lparr>ParagraphSpacing := s\<rparr>) = ventilateParagraph p cfg"
  by (simp add: ventilateParagraph_def ventilateBySentence_def)

lemma ventilateBlock_spacing:
  "ventilateBlock uniDigits blockLines (cfg\<lparr>ParagraphSpacing := s\<rparr>)
     = ventilateBlock uniDigits blockLines cfg"
  by (simp add: ventilateBlock_def ventilateParagraph_spacing Let_def split: list.splits)

lemma processBlock_spacing:
  "processBlock uniDigits (cfg\<lparr>ParagraphSpacing := s\<rparr>) st = processBlock uniDigits cfg st"
  by (simp add: processBlock_def ventilateBlock_spacing split: prod.splits)

lemma linesLoop_spacing:
  "linesLoop uniDigits (cfg\<lparr>ParagraphSpacing := s\<rparr>) ls st = linesLoop uniDigits cfg ls st"
  by (induction ls arbitrary: st) (simp_all add: processBlock_spacing split: sum.splits)

lemma Ventilate_spacing:
  "Ventilate uniDigits input (cfg\<lparr>ParagraphSpacing := s\<rparr>) = Ventilate uniDigits input cfg"
  by (simp add: Ventilate_def linesLoop_spacing processBlock_spacing Let_def split: option.splits sum.splits)

section \<open>Unmatched braces\<close>















section \<open>What the revision with the ellipsis guard guarantees\<close>

text \<open>
  Three full stops at \<open>k\<close>, \<open>k + 1\<close>, \<open>k + 2\<close> of a paragraph, with no full stop right
  before them (an ellipsis, or the start of a longer run). When the cursor of the scanner
  is at \<open>k\<close>, it moves to \<open>k + 3\<close> and nothing is written; and whatever the rest of the
  paragraph, the scan confirms no boundary at \<open>k + 1\<close>, \<open>k + 2\<close> (inside the ellipsis) or
  \<open>k + 3\<close> (right after it), where the output of \<open>ventilateBySentence\<close> is the paragraph
  with a newline at each boundary of the scan.
\<close>

theorem ventilateBySentence_ellipsis:
  assumes "ventilateBySentence p cfg = (out, None)"
    and "k + 3 \<le> length p"
    and "p ! k = CHR ''.''" and "p ! (k + 1) = CHR ''.''" and "p ! (k + 2) = CHR ''.''"
    and "k = 0 \<or> p ! (k - 1) \<noteq> CHR ''.''"
  shows "scanStep p (effectiveAbbreviations cfg) lastBreak k = Advance (k + 3) \<and>
         out = TrimSuffix (renderBreaks p 0 (scanBreaks p (effectiveAbbreviations cfg) 0 0)) [NL] \<and>
         k + 1 \<notin> set (scanBreaks p (effectiveAbbreviations cfg) 0 0) \<and>
         k + 2 \<notin> set (scanBreaks p (effectiveAbbreviations cfg) 0 0) \<and>
         k + 3 \<notin> set (scanBreaks p (effectiveAbbreviations cfg) 0 0)"
proof -
  have "HasPrefix (drop k p) ''...''" using assms(2-5) by (intro ellipsis_HasPrefix) simp_all
  then have "scanStep p (effectiveAbbreviations cfg) lastBreak k = Advance (k + 3)"
    by (simp add: scanStep_def)
  moreover have "out = TrimSuffix (renderBreaks p 0 (scanBreaks p (effectiveAbbreviations cfg) 0 0)) [NL]"
    using assms(1) by (rule ventilateBySentence_render)
  moreover have "b \<noteq> k + 1 \<and> b \<noteq> k + 2 \<and> b \<noteq> k + 3"
    if "b \<in> set (scanBreaks p (effectiveAbbreviations cfg) 0 0)" for b
    using assms(2-6) _ _ that by (rule scanBreaks_ellipsis) simp_all
  ultimately show ?thesis by blast
qed

lemma ventilateBySentence_ellipsis_example:
  "ventilateBySentence ''He looked up... the stars were already fading. She whispered.''
     \<lparr>SentenceBreak = True, MaxLineLength = 0, ParagraphSpacing = [],
      RespectMaxLineLength = False, Abbreviations = None\<rparr>
   = (''He looked up... the stars were already fading.\<newline>She whispered.'', None) \<and>
   scanBreaks ''He looked up... the stars were already fading. She whispered.''
     defaultAbbreviations 0 0 = [46, 61] \<and>
   13 \<notin> set (scanBreaks ''He looked up... the stars were already fading. She whispered.''
     defaultAbbreviations 0 0) \<and>
   14 \<notin> set (scanBreaks ''He looked up... the stars were already fading. She whispered.''
     defaultAbbreviations 0 0) \<and>
   15 \<notin> set (scanBreaks ''He looked up... the stars were already fading. She whispered.''
     defaultAbbreviations 0 0)"
proof -
  let ?p = "''He looked up... the stars were already fading. She whispered.''"
  let ?cfg = "\<lparr>SentenceBreak = True, MaxLineLength = 0, ParagraphSpacing = [],
      RespectMaxLineLength = False, Abbreviations = None\<rparr>"
  have out: "ventilateBySentence ?p ?cfg
      = (''He looked up... the stars were already fading.\<newline>She whispered.'', None)"
    by code_simp
  have len: "(12::nat) + 3 \<le> length ?p" by simp
  have d0: "?p ! 12 = CHR ''.''" by simp
  have d1: "?p ! (12 + 1) = CHR ''.''" by simp
  have d2: "?p ! (12 + 2) = CHR ''.''" by simp
  have before: "(12::nat) = 0 \<or> ?p ! (12 - 1) \<noteq> CHR ''.''" by simp
  have brk: "scanBreaks ?p defaultAbbreviations 0 0 = [46, 61]" by code_simp
  have eff: "effectiveAbbreviations ?cfg = defaultAbbreviations"
    by (simp add: effectiveAbbreviations_def)
  from ventilateBySentence_ellipsis[OF out len d0 d1 d2 before, of 0] out brk eff
  show ?thesis by simp
qed

text \<open>
  On every input on which \<open>Ventilate\<close> succeeds, the output ends with exactly one newline
  if the input ended with a newline, and with none otherwise; it never ends with two.
\<close>

theorem Ventilate_trailing_newline:
  assumes "Ventilate uniDigits input cfg = (out, None)"
  shows "((HasSuffix out [NL] \<and> \<not> HasSuffix out [NL, NL]) = HasSuffix input [NL]) \<and>
         \<not> HasSuffix out [NL, NL]"
proof -
  from assms obtain body where o: "\<not> HasSuffix body [NL]"
    "out = (if HasSuffix input [NL] \<and> input \<noteq> [] then body @ [NL] else body)"
    using Ventilate_output_end by blast
  have ne: "HasSuffix input [NL] \<Longrightarrow> input \<noteq> []" by (auto simp: HasSuffix_NL)
  have two: "HasSuffix (x @ [NL]) [NL, NL] = HasSuffix x [NL]" for x
    by (simp add: HasSuffix_def suffix_to_prefix)
  have two': "HasSuffix x [NL, NL] \<Longrightarrow> HasSuffix x [NL]" for x
    by (auto simp: HasSuffix_def suffix_def)
  show ?thesis
  proof (cases "HasSuffix input [NL]")
    case True
    with o ne have "out = body @ [NL]" by simp
    with o(1) True show ?thesis by (simp add: two) (simp add: HasSuffix_def)
  next
    case False
    with o have "out = body" by simp
    with o(1) False two' show ?thesis by auto
  qed
qed

lemma Ventilate_trailing_newline_example:
  "Ventilate (\<lambda>_. False) ''One. Two.\<newline>''
     \<lparr>SentenceBreak = True, MaxLineLength = 0, ParagraphSpacing = [],
      RespectMaxLineLength = False, Abbreviations = None\<rparr> = (''One.\<newline>Two.\<newline>'', None) \<and>
   HasSuffix ''One. Two.\<newline>'' [NL] \<and>
   HasSuffix ''One.\<newline>Two.\<newline>'' [NL] \<and> \<not> HasSuffix ''One.\<newline>Two.\<newline>'' [NL, NL]"
proof -
  have v: "Ventilate (\<lambda>_. False) ''One. Two.\<newline>''
     \<lparr>SentenceBreak = True, MaxLineLength = 0, ParagraphSpacing = [],
      RespectMaxLineLength = False, Abbreviations = None\<rparr> = (''One.\<newline>Two.\<newline>'', None)"
    by code_simp
  have i: "HasSuffix ''One. Two.\<newline>'' [NL]" by code_simp
  from Ventilate_trailing_newline[OF v] v i show ?thesis by simp
qed

text \<open>
  The word looked up in the abbreviation set runs from the last space or newline before
  the punctuation up to and including the punctuation. When the cursor is on a punctuation
  sign whose word \<open>tok\<close> is in the set, the pass moves on without writing anything: the
  main loop goes on from the next position (from behind the ellipsis when the sign starts
  one) with the builder and \<open>lastBreak\<close> unchanged. With a configured set that contains
  \<open>No.\<close>, \<open>Item No. 42 is important.\<close> comes out unbroken.
\<close>

theorem scanLoop_abbreviation:
  assumes "i < length p"
    and "p ! i = CHR ''.'' \<or> p ! i = CHR ''!'' \<or> p ! i = CHR ''?''"
    and "take (Suc i) p = pre @ tok" and "tok \<noteq> []"
    and "CHR '' '' \<notin> set tok" and "NL \<notin> set tok"
    and "pre = [] \<or> last pre = CHR '' '' \<or> last pre = NL"
    and "abbreviations tok"
    and "m ''No.''"
  shows "wordBefore p i = tok \<and>
         scanLoop p abbreviations result lastBreak i =
           scanLoop p abbreviations result lastBreak
             (if HasPrefix (drop i p) ''...'' then i + 3 else i + 1) \<and>
         scanBreaks p abbreviations lastBreak i =
           scanBreaks p abbreviations lastBreak
             (if HasPrefix (drop i p) ''...'' then i + 3 else i + 1) \<and>
         ventilateBySentence ''Item No. 42 is important.''
           \<lparr>SentenceBreak = True, MaxLineLength = 0, ParagraphSpacing = [],
            RespectMaxLineLength = False, Abbreviations = Some m\<rparr>
         = (''Item No. 42 is important.'', None)"
proof -
  have w: "wordBefore p i = tok"
    using assms(1,3,4) _ _ assms(7)
  proof (rule wordBefore_token)
    show "CHR '' '' \<notin> set (butlast tok)" using assms(5) by (meson in_set_butlastD)
    show "NL \<notin> set (butlast tok)" using assms(6) by (meson in_set_butlastD)
  qed
  have notopen: "p ! i \<noteq> CHR ''{''" using assms(2) by auto
  have step: "scanStep p abbreviations lastBreak i =
      Advance (if HasPrefix (drop i p) ''...'' then i + 3 else i + 1)"
    using assms(2,8) w notopen by (auto simp: scanStep_def)
  have l: "scanLoop p abbreviations result lastBreak i =
           scanLoop p abbreviations result lastBreak
             (if HasPrefix (drop i p) ''...'' then i + 3 else i + 1)"
    using step assms(1) by (subst scanLoop.simps) simp
  have b: "scanBreaks p abbreviations lastBreak i =
           scanBreaks p abbreviations lastBreak
             (if HasPrefix (drop i p) ''...'' then i + 3 else i + 1)"
    using step assms(1) by (subst scanBreaks.simps) simp
  have no: "m ''No.'' = True" using assms(9) by simp
  have ex: "ventilateBySentence ''Item No. 42 is important.''
           \<lparr>SentenceBreak = True, MaxLineLength = 0, ParagraphSpacing = [],
            RespectMaxLineLength = False, Abbreviations = Some m\<rparr>
         = (''Item No. 42 is important.'', None)"
    by (simp add: ventilateBySentence_def scanLoop.simps scanStep_def Let_def HasPrefix_def
        HasSuffix_def TrimSuffix_def findMarkupEnd_def wordBefore_def LastIndexAny_def quoteGuard_def
        skipWrappers_def skipSpace_def isWrapper_def IsSpace_def slice_def no suffix_to_prefix)
  from w l b ex show ?thesis by blast
qed

lemma scanLoop_abbreviation_example:
  "(7::nat) < length ''Item No. 42 is important.'' \<and>
   ''Item No. 42 is important.'' ! 7 = CHR ''.'' \<and>
   take (Suc 7) ''Item No. 42 is important.'' = ''Item '' @ ''No.'' \<and>
   CHR '' '' \<notin> set ''No.'' \<and> NL \<notin> set ''No.'' \<and> last ''Item '' = CHR '' '' \<and>
   wordBefore ''Item No. 42 is important.'' 7 = ''No.'' \<and>
   scanBreaks ''Item No. 42 is important.'' (\<lambda>w. w = ''No.'') 0 7
     = scanBreaks ''Item No. 42 is important.'' (\<lambda>w. w = ''No.'') 0 8 \<and>
   ventilateBySentence ''Item No. 42 is important.''
     \<lparr>SentenceBreak = True, MaxLineLength = 0, ParagraphSpacing = [],
      RespectMaxLineLength = False, Abbreviations = Some (\<lambda>w. w = ''No.'')\<rparr>
   = (''Item No. 42 is important.'', None)"
proof -
  let ?p = "''Item No. 42 is important.''"
  have h1: "(7::nat) < length ?p" by simp
  have h2: "?p ! 7 = CHR ''.'' \<or> ?p ! 7 = CHR ''!'' \<or> ?p ! 7 = CHR ''?''" by simp
  have h3: "take (Suc 7) ?p = ''Item '' @ ''No.''" by simp
  have h4: "''No.'' \<noteq> []" by simp
  have h5: "CHR '' '' \<notin> set ''No.''" by simp
  have h6: "NL \<notin> set ''No.''" by simp
  have h7: "''Item '' = [] \<or> last ''Item '' = CHR '' '' \<or> last ''Item '' = NL" by simp
  have h8: "(\<lambda>w. w = ''No.'') ''No.''" by simp
  have np: "\<not> HasPrefix (drop 7 ?p) ''...''" by (simp add: HasPrefix_def)
  from scanLoop_abbreviation[where i = 7 and p = ?p and pre = "''Item ''" and tok = "''No.''"
      and abbreviations = "\<lambda>w. w = ''No.''" and m = "\<lambda>w. w = ''No.''"
      and result = "[]" and lastBreak = 0] h1 h2 h3 h4 h5 h6 h7 np
  show ?thesis by simp
qed

text \<open>
  The boundary test and the inverted-quote guard look at single bytes: a no-break space
  in UTF-8 (C2 A0) after a full stop is no white space for the scanner, and the lead byte
  of a three-byte character counts as a lower-case letter for the guard.
\<close>

lemma scan_nbsp_no_boundary:
  "ventilateBySentence (''Done.'' @ [CHR 0xC2, CHR 0xA0] @ ''Next'')
     \<lparr>SentenceBreak = True, MaxLineLength = 0, ParagraphSpacing = [],
      RespectMaxLineLength = False, Abbreviations = None\<rparr>
   = (''Done.'' @ [CHR 0xC2, CHR 0xA0] @ ''Next'', None)"
  by code_simp

lemma quoteGuard_lead_byte:
  "quoteGuard (''Stop!'' @ [DQUOTE] @ '' '' @ [CHR 0xE6, CHR 0x97, CHR 0xA5]) 4 \<and>
   ventilateBySentence (''Stop!'' @ [DQUOTE] @ '' '' @ [CHR 0xE6, CHR 0x97, CHR 0xA5])
     \<lparr>SentenceBreak = True, MaxLineLength = 0, ParagraphSpacing = [],
      RespectMaxLineLength = False, Abbreviations = None\<rparr>
   = (''Stop!'' @ [DQUOTE] @ '' '' @ [CHR 0xE6, CHR 0x97, CHR 0xA5], None)"
  by code_simp

section \<open>The revision in \<open>advent.go\<close> at the inputs of the claims\<close>

text \<open>
  \<open>Ventilate\<close> of \<open>advent.go\<close> takes everything from an opening fence to the closing one
  as one block, blank lines included.
\<close>

lemma Ventilate_adv_fence:
  "Ventilate_adv uniDigits
     ([BACKTICK, BACKTICK, BACKTICK] @ ''\<newline>code. More\<newline>\<newline>x. Y\<newline>'' @ [BACKTICK, BACKTICK, BACKTICK])
     \<lparr>SentenceBreak = True, MaxLineLength = 0, ParagraphSpacing = ''single'',
      RespectMaxLineLength = False, Abbreviations = None\<rparr>
   = ([BACKTICK, BACKTICK, BACKTICK] @ ''\<newline>code. More\<newline>\<newline>x. Y\<newline>'' @ [BACKTICK, BACKTICK, BACKTICK], None)"
  by code_simp

text \<open>
  \<open>Ventilate\<close> of \<open>advent.go\<close> joins the blocks with the separator that
  \<open>ParagraphSpacing\<close> selects; these are two cases of the test table.
\<close>

lemma Ventilate_adv_spacing:
  "Ventilate_adv uniDigits
     ''Paragraph one. It has two sentences.\<newline>\<newline>Paragraph two. Also two sentences.''
     \<lparr>SentenceBreak = True, MaxLineLength = 0, ParagraphSpacing = ''single'',
      RespectMaxLineLength = False, Abbreviations = None\<rparr>
   = (''Paragraph one.\<newline>It has two sentences.\<newline>Paragraph two.\<newline>Also two sentences.'', None)
   \<and> Ventilate_adv uniDigits
     ''Paragraph one. It has two sentences.\<newline>\<newline>Paragraph two. Also two sentences.''
     \<lparr>SentenceBreak = True, MaxLineLength = 0, ParagraphSpacing = ''blank-line'',
      RespectMaxLineLength = False, Abbreviations = None\<rparr>
   = (''Paragraph one.\<newline>It has two sentences.\<newline>\<newline>Paragraph two.\<newline>Also two sentences.'', None)"
  by code_simp

text \<open>
  The two revisions share the wrapper and the abbreviation lookup: \<open>advent.go\<close> also breaks
  a span when it wraps, and is not idempotent on the tab-separated input either.
\<close>

lemma Ventilate_adv_wrap:
  "Ventilate_adv uniDigits ''See {+added text+} here''
     \<lparr>SentenceBreak = False, MaxLineLength = 12, ParagraphSpacing = ''single'',
      RespectMaxLineLength = True, Abbreviations = None\<rparr>
   = (''See {+added\<newline>text+} here'', None)"
  by code_simp

lemma Ventilate_adv_twice:
  "Ventilate_adv uniDigits (''A.'' @ [CHR 0x09] @ ''Mr. Smith'')
     \<lparr>SentenceBreak = True, MaxLineLength = 0, ParagraphSpacing = ''single'',
      RespectMaxLineLength = False, Abbreviations = None\<rparr>
   = (''A.\<newline>Mr.\<newline>Smith'', None)
   \<and> Ventilate_adv uniDigits ''A.\<newline>Mr.\<newline>Smith''
     \<lparr>SentenceBreak = True, MaxLineLength = 0, ParagraphSpacing = ''single'',
      RespectMaxLineLength = False, Abbreviations = None\<rparr>
   = (''A.\<newline>Mr. Smith'', None)"
  by code_simp

section \<open>The claims\<close>




text \<open>
  Claim C2 fails on the code. The line-length wrapper splits at every white space and has
  no notion of spans, so a newline lands between a \<open>{\<close> and its \<open>}\<close>. (The sentence
  scanner keeps every span whole, see \<open>ventilateBySentence_span\<close>.)
\<close>

theorem C2_wrap_splits_span:
  "Ventilate uniDigits ''See {+added text+} here''
     \<lparr>SentenceBreak = False, MaxLineLength = 12, ParagraphSpacing = [],
      RespectMaxLineLength = True, Abbreviations = None\<rparr>
   = (''See {+added\<newline>text+} here'', None)"
  by code_simp

text \<open>
  Claim C3 fails on the code. The first run breaks after \<open>Mr.\<close>, because the word
  before the full stop is taken from the last space or newline and the tab does not count;
  the second run, on the output, finds the word \<open>Mr.\<close> in the abbreviation list and
  joins the lines again.
\<close>

theorem C3_not_idempotent:
  "Ventilate uniDigits (''A.'' @ [CHR 0x09] @ ''Mr. Smith'')
     \<lparr>SentenceBreak = True, MaxLineLength = 0, ParagraphSpacing = [],
      RespectMaxLineLength = False, Abbreviations = None\<rparr>
   = (''A.\<newline>Mr.\<newline>Smith'', None) \<and>
   Ventilate uniDigits ''A.\<newline>Mr.\<newline>Smith''
     \<lparr>SentenceBreak = True, MaxLineLength = 0, ParagraphSpacing = [],
      RespectMaxLineLength = False, Abbreviations = None\<rparr>
   = (''A.\<newline>Mr. Smith'', None)"
  by code_simp

text \<open>
  Claim C4 fails on the code of \<open>advent.go\<close>. Its sentence scanner has no ellipsis guard:
  the third full stop of an ellipsis before a space is a boundary, and a newline is
  inserted right after the ellipsis. The input is the documentation's own example of an
  ellipsis in mid-sentence; the other revision keeps the ellipsis in its line, as the
  documentation shows it (and does so on every paragraph, see
  \<open>ventilateBySentence_ellipsis\<close>).
\<close>

theorem C4_ellipsis_break_adv:
  "Ventilate_adv uniDigits ''He looked up... the stars were already fading. She whispered.''
     \<lparr>SentenceBreak = True, MaxLineLength = 0, ParagraphSpacing = ''single'',
      RespectMaxLineLength = False, Abbreviations = None\<rparr>
   = (''He looked up...\<newline>the stars were already fading.\<newline>She whispered.'', None) \<and>
   scanStep_adv ''He looked up... the stars were already fading. She whispered.''
     defaultAbbreviations 0 14 = Boundary 15 16 \<and>
   Ventilate uniDigits ''He looked up... the stars were already fading. She whispered.''
     \<lparr>SentenceBreak = True, MaxLineLength = 0, ParagraphSpacing = ''single'',
      RespectMaxLineLength = False, Abbreviations = None\<rparr>
   = (''He looked up... the stars were already fading.\<newline>She whispered.'', None)"
  by code_simp

text \<open>
  Claim C5 fails on the code. A blank line inside a fence ends the block; the lines after
  it form a block of their own, which is prose by its first line, so they are joined and
  broken at the sentence end.
\<close>

theorem C5_fence_with_blank_line:
  "Ventilate uniDigits ''```\<newline>code. More\<newline>\<newline>x. Y\<newline>```''
     \<lparr>SentenceBreak = True, MaxLineLength = 0, ParagraphSpacing = [],
      RespectMaxLineLength = False, Abbreviations = None\<rparr>
   = (''```\<newline>code. More\<newline>\<newline>x.\<newline>Y ```'', None)"
  by code_simp

text \<open>
  Claim C6 fails on the code. The blocks are joined with two newlines whatever
  \<open>ParagraphSpacing\<close> says (the field is never read); the input and the configuration
  are those of the test \<open>ParagraphSpacing: single\<close>, which expects one newline between
  the paragraphs.
\<close>

theorem C6_spacing_ignored:
  "Ventilate uniDigits ''Paragraph one. It has two sentences.\<newline>\<newline>Paragraph two. Also two sentences.''
     \<lparr>SentenceBreak = True, MaxLineLength = 0, ParagraphSpacing = ''single'',
      RespectMaxLineLength = False, Abbreviations = None\<rparr>
   = (''Paragraph one.\<newline>It has two sentences.\<newline>\<newline>Paragraph two.\<newline>Also two sentences.'', None)"
  by code_simp


text \<open>
  Claim C8 fails on the code. The word looked up in the abbreviation set is taken from the
  last space or newline before the punctuation, not from the last white space: a tab
  does not start a word, although the same loop counts it as white space when it
  confirms a boundary. Below, the last white space before the full stop at position 4 is
  the tab at position 1, the text from there to the full stop is \<open>Mr.\<close>, which is in the
  default set, and yet the scanner looks up \<open>x<tab>Mr.\<close> and breaks after it. With a
  space in the place of the tab nothing is broken.
\<close>

theorem C8_tab_before_abbreviation:
  "Ventilate uniDigits (''x'' @ [CHR 0x09] @ ''Mr. Smith'')
     \<lparr>SentenceBreak = True, MaxLineLength = 0, ParagraphSpacing = [],
      RespectMaxLineLength = False, Abbreviations = None\<rparr>
   = (''x'' @ [CHR 0x09] @ ''Mr.\<newline>Smith'', None) \<and>
   IsSpace ((''x'' @ [CHR 0x09] @ ''Mr. Smith'') ! 1) \<and>
   slice (''x'' @ [CHR 0x09] @ ''Mr. Smith'') 2 5 = ''Mr.'' \<and>
   defaultAbbreviations ''Mr.'' \<and>
   wordBefore (''x'' @ [CHR 0x09] @ ''Mr. Smith'') 4 = ''x'' @ [CHR 0x09] @ ''Mr.'' \<and>
   Ventilate uniDigits ''x Mr. Smith''
     \<lparr>SentenceBreak = True, MaxLineLength = 0, ParagraphSpacing = [],
      RespectMaxLineLength = False, Abbreviations = None\<rparr>
   = (''x Mr. Smith'', None)"
  by code_simp




text \<open>
  Claim C10, as the code has it. The line-length wrapper keeps the words of every
  paragraph, whatever the width: \<open>strings.Fields\<close> of its output is \<open>strings.Fields\<close> of its
  input. The sentence scanner keeps them on every paragraph on which it succeeds, provided
  no closing brace is directly followed by an upper-case byte and no byte 0x85 or 0xA0
  directly follows an ASCII byte (as in every valid UTF-8 text).
\<close>

theorem C10_words_preserved:
  "Fields (fst (ventilateByLineLength p maxLen)) = Fields p \<and>
   (ventilateBySentence q cfg = (out, None) \<and> \<not> braceThenUpper q \<and> \<not> strayLatinSpace q
      \<longrightarrow> Fields out = Fields q)"
  using ventilateByLineLength_Fields[of p maxLen] ventilateBySentence_Fields[of q cfg out]
  by blast

theorem C10_words_preserved_witness:
  "Fields (fst (ventilateByLineLength ''This is a long sentence that should wrap gently.'' 20))
     = Fields ''This is a long sentence that should wrap gently.'' \<and>
   ventilateBySentence ''See {+this+} now.  It  works.''
     \<lparr>SentenceBreak = True, MaxLineLength = 0, ParagraphSpacing = [],
      RespectMaxLineLength = False, Abbreviations = None\<rparr>
     = (''See {+this+} now.\<newline>It  works.'', None) \<and>
   \<not> braceThenUpper ''See {+this+} now.  It  works.'' \<and>
   \<not> strayLatinSpace ''See {+this+} now.  It  works.'' \<and>
   Fields ''See {+this+} now.\<newline>It  works.'' = Fields ''See {+this+} now.  It  works.'' \<and>
   Fields ''See {+this+} now.  It  works.'' = [''See'', ''{+this+}'', ''now.'', ''It'', ''works.'']"
proof -
  let ?q = "''See {+this+} now.  It  works.''"
  let ?cfg = "\<lparr>SentenceBreak = True, MaxLineLength = 0, ParagraphSpacing = [],
      RespectMaxLineLength = False, Abbreviations = None\<rparr>"
  have v: "ventilateBySentence ?q ?cfg = (''See {+this+} now.\<newline>It  works.'', None)"
    by code_simp
  have h1: "\<not> braceThenUpper ?q" by code_simp
  have h2: "\<not> strayLatinSpace ?q" by code_simp
  have f: "Fields ?q = [''See'', ''{+this+}'', ''now.'', ''It'', ''works.'']" by code_simp
  from C10_words_preserved[of "''This is a long sentence that should wrap gently.''" 20
      ?q ?cfg "''See {+this+} now.\<newline>It  works.''"] v h1 h2 f
  show ?thesis by simp
qed

text \<open>
  Claim C10 as stated fails for the sentence scanner: after a span it breaks before an
  upper-case letter whether or not white space stands between them, so the one word
  \<open>{a}B\<close> comes out as two.
\<close>

theorem C10_split_word_counterexample:
  "ventilateBySentence ''{a}B''
     \<lparr>SentenceBreak = True, MaxLineLength = 0, ParagraphSpacing = [],
      RespectMaxLineLength = False, Abbreviations = None\<rparr> = (''{a}\<newline>B'', None) \<and>
   Fields ''{a}B'' = [''{a}B''] \<and>
   Fields ''{a}\<newline>B'' = [''{a}'', ''B'']"
  by code_simp

end
